theory Spec2Isabelle
  imports Main "HOL-Library.Word"
begin

section \<open>The seekable stream: a ring buffer with a rewindable read cursor\<close>

text \<open>
  This theory embeds \<^verbatim>\<open>seekablestream.c\<close> and \<^verbatim>\<open>seekablestream.h\<close>.

  \<^item> \<^verbatim>\<open>sstm_size_t\<close> is \<^verbatim>\<open>uint32_t\<close>: a \<open>32 word\<close>, whose \<open>+\<close>, \<open>-\<close> wrap,
    whose \<open>mod\<close> and \<open>\<le>\<close> are the unsigned ones.
  \<^item> \<^verbatim>\<open>sstm_offs_t\<close> is \<^verbatim>\<open>int32_t\<close>: the same 32 bits read with \<open>sint\<close>. The casts between
    the two keep the bit pattern, and the signed addition of \<^verbatim>\<open>sstm_seek\<close> wraps in two's
    complement, as the machine instruction does.
  \<^item> The ring buffer is a block of \<^verbatim>\<open>alloc_size\<close> bytes: its contents are a function from
    byte offsets to bytes, and every \<^verbatim>\<open>memcpy\<close> and \<^verbatim>\<open>memset\<close> on it checks that the span
    lies inside the block. A span outside it, a remainder by zero and a store through a null
    pointer are the faults of the model.
  \<^item> A function that mutates \<^verbatim>\<open>*ctx\<close> takes the context and returns the new one.
\<close>

subsection \<open>Types of the header\<close>

type_synonym sstm_u8_t = "8 word"
type_synonym sstm_size_t = "32 word"
type_synonym sstm_offs_t = "32 word"

text \<open>The result codes \<^verbatim>\<open>SSTM_OK\<close> (0) to \<^verbatim>\<open>SSTM_ERR_BAD_OFFS\<close> (-5).\<close>

datatype sstm_res_t =
    SSTM_OK
  | SSTM_ERR
  | SSTM_ERR_NO_MEM
  | SSTM_ERR_NO_SPACE
  | SSTM_ERR_NO_DATA
  | SSTM_ERR_BAD_OFFS

datatype sstm_whence_t = SSTM_SEEK_SET | SSTM_SEEK_CUR | SSTM_SEEK_END

text \<open>\<^verbatim>\<open>struct _sstm_conf\<close>; a null \<^verbatim>\<open>conf\<close> pointer is \<open>None\<close>.\<close>

record sstm_conf_t =
  conf_cap_size :: sstm_size_t

definition SSTM_CAP_SIZE_MIN :: sstm_size_t where
  "SSTM_CAP_SIZE_MIN = 128"

definition SSTM_CAP_SIZE_DEF :: sstm_size_t where
  "SSTM_CAP_SIZE_DEF = 1024"

text \<open>
  \<^verbatim>\<open>struct _sstm_ctx\<close>, with the fields of the nested \<^verbatim>\<open>conf\<close> and \<^verbatim>\<open>cache\<close> structs side
  by side. \<open>ring_buff\<close> holds the contents of the block that the pointer of the same name
  points to.
\<close>

record sstm_ctx_t =
  cap_size :: sstm_size_t
  alloc_size :: sstm_size_t
  used_size :: sstm_size_t
  stale_size :: sstm_size_t
  fresh_size :: sstm_size_t
  free_size :: sstm_size_t
  ring_buff :: "nat \<Rightarrow> sstm_u8_t"
  head_idx :: sstm_size_t
  tail_idx :: sstm_size_t
  seek_offs :: sstm_size_t

text \<open>\<^verbatim>\<open>struct _sstm_stat\<close>, the snapshot that \<^verbatim>\<open>sstm_stat\<close> fills in.\<close>

record sstm_stat_t =
  stat_cap_size :: sstm_size_t
  stat_used_size :: sstm_size_t
  stat_stale_size :: sstm_size_t
  stat_fresh_size :: sstm_size_t
  stat_free_size :: sstm_size_t
  stat_seek_offs :: sstm_size_t

text \<open>What stops a call before it returns.\<close>

datatype fault = NullDeref | DivByZero | OutOfBounds

subsection \<open>Memory\<close>

text \<open>
  \<^verbatim>\<open>memset(ring_buff + off, 0, n)\<close> and \<^verbatim>\<open>memcpy(ring_buff + off, src, n)\<close> on a block of
  \<open>alloc\<close> bytes, and \<^verbatim>\<open>memcpy(dst, ring_buff + off, n)\<close>, which gives the bytes stored
  at \<^verbatim>\<open>dst\<close>.
\<close>

definition ring_memset :: "(nat \<Rightarrow> sstm_u8_t) \<Rightarrow> nat \<Rightarrow> nat \<Rightarrow> nat \<Rightarrow> fault + (nat \<Rightarrow> sstm_u8_t)" where
  "ring_memset buf alloc off n =
     (if off + n \<le> alloc then Inr (\<lambda>i. if off \<le> i \<and> i < off + n then 0 else buf i)
      else Inl OutOfBounds)"

definition ring_memcpy_in :: "(nat \<Rightarrow> sstm_u8_t) \<Rightarrow> nat \<Rightarrow> nat \<Rightarrow> sstm_u8_t list \<Rightarrow> fault + (nat \<Rightarrow> sstm_u8_t)" where
  "ring_memcpy_in buf alloc off src =
     (if off + length src \<le> alloc
      then Inr (\<lambda>i. if off \<le> i \<and> i < off + length src then src ! (i - off) else buf i)
      else Inl OutOfBounds)"

definition ring_memcpy_out :: "(nat \<Rightarrow> sstm_u8_t) \<Rightarrow> nat \<Rightarrow> nat \<Rightarrow> nat \<Rightarrow> fault + sstm_u8_t list" where
  "ring_memcpy_out buf alloc off n =
     (if off + n \<le> alloc then Inr (map buf [off..<off + n]) else Inl OutOfBounds)"

text \<open>
  The two arms that \<^verbatim>\<open>sstm_write\<close> has at each copy: \<^verbatim>\<open>data != NULL\<close> copies the \<open>n\<close>
  bytes of the source from \<open>src_off\<close> on, a null \<^verbatim>\<open>data\<close> stores zeros. The source is a block
  of its own: reading past its end is a fault too.
\<close>

definition copy_or_zero ::
  "(nat \<Rightarrow> sstm_u8_t) \<Rightarrow> nat \<Rightarrow> nat \<Rightarrow> sstm_u8_t list option \<Rightarrow> nat \<Rightarrow> nat \<Rightarrow> fault + (nat \<Rightarrow> sstm_u8_t)" where
  "copy_or_zero buf alloc off data src_off n =
     (case data of
        Some src \<Rightarrow>
          (if src_off + n \<le> length src then ring_memcpy_in buf alloc off (take n (drop src_off src))
           else Inl OutOfBounds)
      | None \<Rightarrow> ring_memset buf alloc off n)"

subsection \<open>\<^verbatim>\<open>sstm_new\<close>\<close>

text \<open>
  The two \<^verbatim>\<open>malloc\<close> calls are the parameters \<open>ring_malloc\<close> (the contents of the new
  block, which \<^verbatim>\<open>malloc\<close> leaves arbitrary, or \<open>None\<close> for a null pointer) and \<open>ctx_malloc\<close>
  (whether the context block was obtained). The result is the code returned, the context
  stored in \<^verbatim>\<open>*ctx\<close> when one is, and the blocks that are allocated at the return.

  The second test reads \<^verbatim>\<open>ring_buff == NULL\<close> in the source, as it does here; the stores
  \<^verbatim>\<open>new_ctx->...\<close> that follow go through \<^verbatim>\<open>new_ctx\<close> whatever it is.
\<close>

datatype block = RingBlock | CtxBlock

definition sstm_new ::
  "sstm_conf_t option \<Rightarrow> (nat \<Rightarrow> sstm_u8_t) option \<Rightarrow> bool \<Rightarrow>
   fault + (sstm_res_t \<times> sstm_ctx_t option \<times> block list)" where
  "sstm_new conf ring_malloc ctx_malloc =
     (let cap = (case conf of
                   None \<Rightarrow> SSTM_CAP_SIZE_DEF
                 | Some c \<Rightarrow> if conf_cap_size c < SSTM_CAP_SIZE_MIN then SSTM_CAP_SIZE_DEF
                             else conf_cap_size c);
          alloc = push_bit 3 (drop_bit 3 cap + 1);
          ring_buff = ring_malloc
      in case ring_buff of
           None \<Rightarrow> Inr (SSTM_ERR_NO_MEM, None, [])
         | Some mem \<Rightarrow>
             let new_ctx = ctx_malloc
             in if ring_buff = None
                then Inr (SSTM_ERR_NO_MEM, None, if new_ctx then [CtxBlock] else [])
                else if \<not> new_ctx then Inl NullDeref
                else Inr (SSTM_OK,
                          Some \<lparr> cap_size = cap, alloc_size = alloc, used_size = 0,
                                 stale_size = 0, fresh_size = 0, free_size = cap,
                                 ring_buff = mem, head_idx = 0, tail_idx = 0,
                                 seek_offs = 0 \<rparr>,
                          [RingBlock, CtxBlock]))"

subsection \<open>\<^verbatim>\<open>sstm_stat\<close>\<close>

definition sstm_stat :: "sstm_ctx_t \<Rightarrow> sstm_res_t \<times> sstm_stat_t" where
  "sstm_stat ctx =
     (SSTM_OK,
      \<lparr> stat_cap_size = cap_size ctx,
        stat_used_size = used_size ctx,
        stat_stale_size = stale_size ctx,
        stat_fresh_size = fresh_size ctx,
        stat_free_size = free_size ctx,
        stat_seek_offs = seek_offs ctx \<rparr>)"

subsection \<open>\<^verbatim>\<open>sstm_clean\<close>\<close>

definition sstm_clean :: "sstm_ctx_t \<Rightarrow> fault + (sstm_res_t \<times> sstm_ctx_t)" where
  "sstm_clean ctx =
     (let stale = stale_size ctx
      in if stale = 0 then Inr (SSTM_OK, ctx)
         else if cap_size ctx + 1 = 0 then Inl DivByZero
         else Inr (SSTM_OK,
                   ctx \<lparr> head_idx := (head_idx ctx + stale) mod (cap_size ctx + 1),
                         used_size := used_size ctx - stale,
                         stale_size := 0,
                         free_size := free_size ctx + stale,
                         seek_offs := 0 \<rparr>))"

subsection \<open>\<^verbatim>\<open>sstm_read\<close>\<close>

text \<open>
  \<open>data\<close> says whether the destination pointer is non-null. The list returned holds the
  bytes stored at the destination, in order; it is empty when nothing is stored.
\<close>

definition sstm_read ::
  "sstm_ctx_t \<Rightarrow> bool \<Rightarrow> sstm_size_t \<Rightarrow> bool \<Rightarrow> fault + (sstm_res_t \<times> sstm_u8_t list \<times> sstm_ctx_t)" where
  "sstm_read ctx data sz cleanup =
     (if sz = 0 then Inr (SSTM_OK, [], ctx)
      else if fresh_size ctx < sz then Inr (SSTM_ERR_NO_DATA, [], ctx)
      else if cap_size ctx + 1 = 0 then Inl DivByZero
      else
        let new_head_idx = (head_idx ctx + seek_offs ctx) mod (cap_size ctx + 1);
            copied =
              (if data then
                 (if cap_size ctx + 1 - new_head_idx \<ge> sz
                  then ring_memcpy_out (ring_buff ctx) (unat (alloc_size ctx)) (unat new_head_idx) (unat sz)
                  else
                    let first_copy_size = cap_size ctx + 1 - new_head_idx;
                        second_copy_size = sz - first_copy_size
                    in case ring_memcpy_out (ring_buff ctx) (unat (alloc_size ctx))
                              (unat new_head_idx) (unat first_copy_size) of
                         Inl f \<Rightarrow> Inl f
                       | Inr xs \<Rightarrow>
                           (case ring_memcpy_out (ring_buff ctx) (unat (alloc_size ctx))
                                   0 (unat second_copy_size) of
                              Inl f \<Rightarrow> Inl f
                            | Inr ys \<Rightarrow> Inr (xs @ ys)))
               else Inr []);
            ctx' = ctx \<lparr> seek_offs := seek_offs ctx + sz,
                         stale_size := stale_size ctx + sz,
                         fresh_size := fresh_size ctx - sz \<rparr>
        in case copied of
             Inl f \<Rightarrow> Inl f
           | Inr out \<Rightarrow>
               if cleanup then
                 (case sstm_clean ctx' of
                    Inl f \<Rightarrow> Inl f
                  | Inr (r, ctx'') \<Rightarrow> Inr (SSTM_OK, out, ctx''))
               else Inr (SSTM_OK, out, ctx'))"

subsection \<open>\<^verbatim>\<open>sstm_write\<close>\<close>

definition sstm_write ::
  "sstm_ctx_t \<Rightarrow> sstm_u8_t list option \<Rightarrow> sstm_size_t \<Rightarrow> fault + (sstm_res_t \<times> sstm_ctx_t)" where
  "sstm_write ctx data sz =
     (if sz = 0 then Inr (SSTM_OK, ctx)
      else if free_size ctx < sz then Inr (SSTM_ERR_NO_SPACE, ctx)
      else
        let moved =
              (if cap_size ctx + 1 - tail_idx ctx \<ge> sz then
                 (case copy_or_zero (ring_buff ctx) (unat (alloc_size ctx))
                         (unat (tail_idx ctx)) data 0 (unat sz) of
                    Inl f \<Rightarrow> Inl f
                  | Inr buf \<Rightarrow>
                      if cap_size ctx + 1 = 0 then Inl DivByZero
                      else Inr (ctx \<lparr> ring_buff := buf,
                                      tail_idx := (tail_idx ctx + sz) mod (cap_size ctx + 1) \<rparr>))
               else
                 let first_copy_size = cap_size ctx + 1 - tail_idx ctx;
                     second_copy_size = sz - first_copy_size
                 in case copy_or_zero (ring_buff ctx) (unat (alloc_size ctx))
                           (unat (tail_idx ctx)) data 0 (unat first_copy_size) of
                      Inl f \<Rightarrow> Inl f
                    | Inr buf1 \<Rightarrow>
                        (case copy_or_zero buf1 (unat (alloc_size ctx))
                                0 data (unat first_copy_size) (unat second_copy_size) of
                           Inl f \<Rightarrow> Inl f
                         | Inr buf2 \<Rightarrow>
                             Inr (ctx \<lparr> ring_buff := buf2, tail_idx := second_copy_size \<rparr>)))
        in case moved of
             Inl f \<Rightarrow> Inl f
           | Inr ctx' \<Rightarrow>
               Inr (SSTM_OK,
                    ctx' \<lparr> used_size := used_size ctx' + sz,
                           fresh_size := fresh_size ctx' + sz,
                           free_size := free_size ctx' - sz \<rparr>))"

subsection \<open>\<^verbatim>\<open>sstm_seek\<close>\<close>

definition sstm_seek ::
  "sstm_ctx_t \<Rightarrow> sstm_offs_t \<Rightarrow> sstm_whence_t \<Rightarrow> fault + (sstm_res_t \<times> sstm_ctx_t)" where
  "sstm_seek ctx offset whence =
     (let abs_offs =
            (case whence of
               SSTM_SEEK_SET \<Rightarrow> offset
             | SSTM_SEEK_CUR \<Rightarrow> seek_offs ctx + offset
             | SSTM_SEEK_END \<Rightarrow> used_size ctx + offset)
      in if sint abs_offs < 0 then Inr (SSTM_ERR_BAD_OFFS, ctx)
         else if abs_offs > used_size ctx then Inr (SSTM_ERR_BAD_OFFS, ctx)
         else if abs_offs = seek_offs ctx then Inr (SSTM_OK, ctx)
         else Inr (SSTM_OK,
                   ctx \<lparr> seek_offs := abs_offs,
                         stale_size := abs_offs,
                         fresh_size := used_size ctx - abs_offs \<rparr>))"

subsection \<open>Calls in sequence and the states they reach\<close>

text \<open>One call of a mutating function, with its arguments.\<close>

datatype sstm_op =
    Write "sstm_u8_t list option" sstm_size_t
  | Read bool sstm_size_t bool
  | Seek sstm_offs_t sstm_whence_t
  | Clean

fun step :: "sstm_op \<Rightarrow> sstm_ctx_t \<Rightarrow> fault + (sstm_res_t \<times> sstm_u8_t list \<times> sstm_ctx_t)" where
  "step (Write data sz) ctx =
     (case sstm_write ctx data sz of Inl f \<Rightarrow> Inl f | Inr (r, ctx') \<Rightarrow> Inr (r, [], ctx'))"
| "step (Read data sz cleanup) ctx = sstm_read ctx data sz cleanup"
| "step (Seek offset whence) ctx =
     (case sstm_seek ctx offset whence of Inl f \<Rightarrow> Inl f | Inr (r, ctx') \<Rightarrow> Inr (r, [], ctx'))"
| "step Clean ctx =
     (case sstm_clean ctx of Inl f \<Rightarrow> Inl f | Inr (r, ctx') \<Rightarrow> Inr (r, [], ctx'))"

fun run :: "sstm_op list \<Rightarrow> sstm_ctx_t \<Rightarrow> fault + sstm_ctx_t" where
  "run [] ctx = Inr ctx"
| "run (c # cs) ctx =
     (case step c ctx of Inl f \<Rightarrow> Inl f | Inr (r, out, ctx') \<Rightarrow> run cs ctx')"

text \<open>
  A stream state is reachable when \<^verbatim>\<open>sstm_new\<close> returned it, or when a call that returned
  (with any result code) left it behind in a reachable state.
\<close>

inductive reachable :: "sstm_ctx_t \<Rightarrow> bool" where
  created: "sstm_new conf ring_malloc ctx_malloc = Inr (SSTM_OK, Some ctx, live) \<Longrightarrow> reachable ctx"
| called: "reachable ctx \<Longrightarrow> step c ctx = Inr (r, out, ctx') \<Longrightarrow> reachable ctx'"

subsection \<open>The effect of each call, by name\<close>

text \<open>
  The contexts and copies that the functions above build in place, named so that the
  lemmas can speak of them: what \<^verbatim>\<open>sstm_clean\<close> leaves when it reclaims, what the cache
  update of \<^verbatim>\<open>sstm_read\<close> leaves, the copy of \<^verbatim>\<open>sstm_read\<close>, the context after a write
  with its copy and its new tail index, the absolute offset of \<^verbatim>\<open>sstm_seek\<close> and the context
  it leaves when it moves the cursor.
\<close>

definition cleaned :: "sstm_ctx_t \<Rightarrow> sstm_ctx_t" where
  "cleaned ctx =
     ctx \<lparr> head_idx := (head_idx ctx + stale_size ctx) mod (cap_size ctx + 1),
           used_size := used_size ctx - stale_size ctx,
           stale_size := 0,
           free_size := free_size ctx + stale_size ctx,
           seek_offs := 0 \<rparr>"

definition advanced :: "sstm_ctx_t \<Rightarrow> sstm_size_t \<Rightarrow> sstm_ctx_t" where
  "advanced ctx sz =
     ctx \<lparr> seek_offs := seek_offs ctx + sz,
           stale_size := stale_size ctx + sz,
           fresh_size := fresh_size ctx - sz \<rparr>"

definition read_copy :: "sstm_ctx_t \<Rightarrow> bool \<Rightarrow> sstm_size_t \<Rightarrow> fault + sstm_u8_t list" where
  "read_copy ctx data sz =
     (let new_head_idx = (head_idx ctx + seek_offs ctx) mod (cap_size ctx + 1)
      in if data then
           (if cap_size ctx + 1 - new_head_idx \<ge> sz
            then ring_memcpy_out (ring_buff ctx) (unat (alloc_size ctx)) (unat new_head_idx) (unat sz)
            else
              case ring_memcpy_out (ring_buff ctx) (unat (alloc_size ctx))
                     (unat new_head_idx) (unat (cap_size ctx + 1 - new_head_idx)) of
                Inl f \<Rightarrow> Inl f
              | Inr xs \<Rightarrow>
                  (case ring_memcpy_out (ring_buff ctx) (unat (alloc_size ctx))
                          0 (unat (sz - (cap_size ctx + 1 - new_head_idx))) of
                     Inl f \<Rightarrow> Inl f
                   | Inr ys \<Rightarrow> Inr (xs @ ys)))
         else Inr [])"

definition wrote :: "sstm_ctx_t \<Rightarrow> (nat \<Rightarrow> sstm_u8_t) \<Rightarrow> sstm_size_t \<Rightarrow> sstm_size_t \<Rightarrow> sstm_ctx_t" where
  "wrote ctx buf t sz =
     ctx \<lparr> ring_buff := buf, tail_idx := t,
           used_size := used_size ctx + sz,
           fresh_size := fresh_size ctx + sz,
           free_size := free_size ctx - sz \<rparr>"

definition write_copy :: "sstm_ctx_t \<Rightarrow> sstm_u8_t list option \<Rightarrow> sstm_size_t \<Rightarrow> fault + (nat \<Rightarrow> sstm_u8_t)" where
  "write_copy ctx data sz =
     (if cap_size ctx + 1 - tail_idx ctx \<ge> sz then
        copy_or_zero (ring_buff ctx) (unat (alloc_size ctx)) (unat (tail_idx ctx)) data 0 (unat sz)
      else
        case copy_or_zero (ring_buff ctx) (unat (alloc_size ctx))
               (unat (tail_idx ctx)) data 0 (unat (cap_size ctx + 1 - tail_idx ctx)) of
          Inl f \<Rightarrow> Inl f
        | Inr buf1 \<Rightarrow>
            copy_or_zero buf1 (unat (alloc_size ctx)) 0 data
              (unat (cap_size ctx + 1 - tail_idx ctx))
              (unat (sz - (cap_size ctx + 1 - tail_idx ctx))))"

definition write_tail :: "sstm_ctx_t \<Rightarrow> sstm_size_t \<Rightarrow> sstm_size_t" where
  "write_tail ctx sz =
     (if cap_size ctx + 1 - tail_idx ctx \<ge> sz
      then (tail_idx ctx + sz) mod (cap_size ctx + 1)
      else sz - (cap_size ctx + 1 - tail_idx ctx))"

definition seek_abs :: "sstm_ctx_t \<Rightarrow> sstm_offs_t \<Rightarrow> sstm_whence_t \<Rightarrow> sstm_offs_t" where
  "seek_abs ctx offset whence =
     (case whence of
        SSTM_SEEK_SET \<Rightarrow> offset
      | SSTM_SEEK_CUR \<Rightarrow> seek_offs ctx + offset
      | SSTM_SEEK_END \<Rightarrow> used_size ctx + offset)"

definition sought :: "sstm_ctx_t \<Rightarrow> sstm_size_t \<Rightarrow> sstm_ctx_t" where
  "sought ctx a = ctx \<lparr> seek_offs := a, stale_size := a, fresh_size := used_size ctx - a \<rparr>"

text \<open>
  The target of a seek as the specification computes it, on integers: the offset itself, the
  cursor plus the offset, or the used size plus the offset.
\<close>

definition seek_target :: "sstm_ctx_t \<Rightarrow> sstm_offs_t \<Rightarrow> sstm_whence_t \<Rightarrow> int" where
  "seek_target ctx offset whence =
     (case whence of
        SSTM_SEEK_SET \<Rightarrow> sint offset
      | SSTM_SEEK_CUR \<Rightarrow> uint (seek_offs ctx) + sint offset
      | SSTM_SEEK_END \<Rightarrow> uint (used_size ctx) + sint offset)"

subsection \<open>The invariants of the data model\<close>

text \<open>
  The five invariants, on the numbers that the fields hold (\<open>uint\<close> reads a field as an
  integer): \<open>used = stale + fresh\<close>; \<open>free = capacity - used\<close>; \<open>0 \<le> cursor \<le> used\<close> and
  \<open>cursor = stale\<close>; the distance from \<open>head\<close> to \<open>tail\<close> modulo \<open>capacity + 1\<close> is \<open>used\<close>;
  \<open>head\<close> and \<open>tail\<close> lie in \<open>[0, capacity]\<close>.
\<close>

definition inv_used :: "sstm_ctx_t \<Rightarrow> bool" where
  "inv_used ctx \<longleftrightarrow> uint (used_size ctx) = uint (stale_size ctx) + uint (fresh_size ctx)"

definition inv_free :: "sstm_ctx_t \<Rightarrow> bool" where
  "inv_free ctx \<longleftrightarrow> uint (free_size ctx) = uint (cap_size ctx) - uint (used_size ctx)"

definition inv_cursor :: "sstm_ctx_t \<Rightarrow> bool" where
  "inv_cursor ctx \<longleftrightarrow>
     0 \<le> uint (seek_offs ctx) \<and> uint (seek_offs ctx) \<le> uint (used_size ctx) \<and>
     seek_offs ctx = stale_size ctx"

definition inv_distance :: "sstm_ctx_t \<Rightarrow> bool" where
  "inv_distance ctx \<longleftrightarrow>
     (uint (tail_idx ctx) - uint (head_idx ctx)) mod (uint (cap_size ctx) + 1) = uint (used_size ctx)"

definition inv_indices :: "sstm_ctx_t \<Rightarrow> bool" where
  "inv_indices ctx \<longleftrightarrow>
     0 \<le> uint (head_idx ctx) \<and> uint (head_idx ctx) \<le> uint (cap_size ctx) \<and>
     0 \<le> uint (tail_idx ctx) \<and> uint (tail_idx ctx) \<le> uint (cap_size ctx)"

text \<open>The same facts about the counters and the index bounds, on natural numbers.\<close>

definition counters_ok :: "sstm_ctx_t \<Rightarrow> bool" where
  "counters_ok ctx \<longleftrightarrow>
     unat (used_size ctx) = unat (stale_size ctx) + unat (fresh_size ctx) \<and>
     unat (free_size ctx) + unat (used_size ctx) = unat (cap_size ctx) \<and>
     seek_offs ctx = stale_size ctx \<and>
     unat (head_idx ctx) \<le> unat (cap_size ctx) \<and>
     unat (tail_idx ctx) \<le> unat (cap_size ctx)"

text \<open>
  The distance from \<open>head\<close> to \<open>tail\<close> read forwards: \<open>tail\<close> is \<open>head + used\<close> modulo
  \<open>capacity + 1\<close>. And the allocation size that \<^verbatim>\<open>sstm_new\<close> computes from the capacity.
\<close>

definition dist_ok :: "sstm_ctx_t \<Rightarrow> bool" where
  "dist_ok ctx \<longleftrightarrow>
     (unat (head_idx ctx) + unat (used_size ctx)) mod (unat (cap_size ctx) + 1) = unat (tail_idx ctx)"

definition alloc_ok :: "sstm_ctx_t \<Rightarrow> bool" where
  "alloc_ok ctx \<longleftrightarrow> alloc_size ctx = push_bit 3 (drop_bit 3 (cap_size ctx) + 1)"

text \<open>
  Byte \<open>j\<close> of what a write stores: byte \<open>j\<close> of the source, or zero for a null source. A
  source fits a size when it holds at least that many bytes, and the allocation fits when it
  holds the \<open>capacity + 1\<close> bytes that the indices range over. \<open>overlay\<close> is a block with
  \<open>n\<close> bytes replaced from offset \<open>off\<close> on.
\<close>

definition payload :: "sstm_u8_t list option \<Rightarrow> nat \<Rightarrow> sstm_u8_t" where
  "payload data j = (case data of None \<Rightarrow> 0 | Some src \<Rightarrow> src ! j)"

definition data_fits :: "sstm_u8_t list option \<Rightarrow> sstm_size_t \<Rightarrow> bool" where
  "data_fits data sz \<longleftrightarrow> (case data of None \<Rightarrow> True | Some src \<Rightarrow> unat sz \<le> length src)"

definition alloc_fits :: "sstm_ctx_t \<Rightarrow> bool" where
  "alloc_fits ctx \<longleftrightarrow> unat (cap_size ctx) + 1 \<le> unat (alloc_size ctx)"

definition overlay :: "(nat \<Rightarrow> sstm_u8_t) \<Rightarrow> nat \<Rightarrow> nat \<Rightarrow> (nat \<Rightarrow> sstm_u8_t) \<Rightarrow> nat \<Rightarrow> sstm_u8_t" where
  "overlay buf off n f i = (if off \<le> i \<and> i < off + n then f (i - off) else buf i)"

subsection \<open>The resident bytes\<close>

text \<open>
  The bytes between \<open>head\<close> and \<open>tail\<close>, oldest first: byte \<open>i\<close> of the window lives at
  offset \<open>(head + i) mod (capacity + 1)\<close>. The fresh bytes are those from the cursor on.
\<close>

definition ring_at :: "sstm_ctx_t \<Rightarrow> nat \<Rightarrow> sstm_u8_t" where
  "ring_at ctx i = ring_buff ctx ((unat (head_idx ctx) + i) mod (unat (cap_size ctx) + 1))"

definition resident :: "sstm_ctx_t \<Rightarrow> sstm_u8_t list" where
  "resident ctx = map (ring_at ctx) [0..<unat (used_size ctx)]"

definition fresh_bytes :: "sstm_ctx_t \<Rightarrow> sstm_u8_t list" where
  "fresh_bytes ctx = drop (unat (stale_size ctx)) (resident ctx)"

subsection \<open>Two callers\<close>

text \<open>
  Write the bytes, read as many, and take the status: the two result codes, the bytes
  delivered and the snapshot.
\<close>

definition round_trip ::
  "sstm_ctx_t \<Rightarrow> sstm_u8_t list \<Rightarrow>
   fault + (sstm_res_t \<times> sstm_res_t \<times> sstm_u8_t list \<times> sstm_stat_t)" where
  "round_trip ctx bytes =
     (case sstm_write ctx (Some bytes) (of_nat (length bytes)) of
        Inl f \<Rightarrow> Inl f
      | Inr (r1, ctx1) \<Rightarrow>
          (case sstm_read ctx1 True (of_nat (length bytes)) False of
             Inl f \<Rightarrow> Inl f
           | Inr (r2, out, ctx2) \<Rightarrow> Inr (r1, r2, out, snd (sstm_stat ctx2))))"

text \<open>
  Write \<open>k\<close> bytes, read them without reclaiming, seek to absolute offset 0 and read \<open>k\<close>
  bytes again: the four result codes and the bytes that each read delivers.
\<close>

definition rewind_twice ::
  "sstm_ctx_t \<Rightarrow> sstm_u8_t list option \<Rightarrow> sstm_size_t \<Rightarrow> bool \<Rightarrow>
   fault + (sstm_res_t list \<times> sstm_u8_t list \<times> sstm_u8_t list)" where
  "rewind_twice ctx data k cleanup =
     (case sstm_write ctx data k of
        Inl f \<Rightarrow> Inl f
      | Inr (r1, ctx1) \<Rightarrow>
          (case sstm_read ctx1 True k False of
             Inl f \<Rightarrow> Inl f
           | Inr (r2, out1, ctx2) \<Rightarrow>
               (case sstm_seek ctx2 0 SSTM_SEEK_SET of
                  Inl f \<Rightarrow> Inl f
                | Inr (r3, ctx3) \<Rightarrow>
                    (case sstm_read ctx3 True k cleanup of
                       Inl f \<Rightarrow> Inl f
                     | Inr (r4, out2, ctx4) \<Rightarrow> Inr ([r1, r2, r3, r4], out1, out2)))))"

subsection \<open>Streams used as examples\<close>

definition zero_mem :: "nat \<Rightarrow> sstm_u8_t" where
  "zero_mem = (\<lambda>_. 0)"

text \<open>The stream that \<^verbatim>\<open>sstm_new(&ctx, NULL)\<close> creates on zeroed memory.\<close>

definition empty_default :: sstm_ctx_t where
  "empty_default =
     \<lparr> cap_size = 1024, alloc_size = 1032, used_size = 0, stale_size = 0, fresh_size = 0,
       free_size = 1024, ring_buff = zero_mem, head_idx = 0, tail_idx = 0, seek_offs = 0 \<rparr>"

text \<open>The default stream after one zero byte is written, and after that byte is read.\<close>

definition one_written :: sstm_ctx_t where
  "one_written =
     \<lparr> cap_size = 1024, alloc_size = 1032, used_size = 1, stale_size = 0, fresh_size = 1,
       free_size = 1023, ring_buff = zero_mem, head_idx = 0, tail_idx = 1, seek_offs = 0 \<rparr>"

definition one_read :: sstm_ctx_t where
  "one_read =
     \<lparr> cap_size = 1024, alloc_size = 1032, used_size = 1, stale_size = 1, fresh_size = 0,
       free_size = 1023, ring_buff = zero_mem, head_idx = 0, tail_idx = 1, seek_offs = 1 \<rparr>"

text \<open>
  A stream of capacity \<open>2 ^ 31\<close> on zeroed memory, as \<^verbatim>\<open>sstm_new\<close> creates it; the same
  stream after \<open>2 ^ 31\<close> zero bytes are written; after they are read and reclaimed and
  \<open>2 ^ 31\<close> more are written, which takes the tail around the end of the ring; and after
  these are read and reclaimed too.
\<close>

definition huge_conf :: sstm_conf_t where
  "huge_conf = \<lparr> conf_cap_size = 0x80000000 \<rparr>"

definition empty_huge :: sstm_ctx_t where
  "empty_huge =
     \<lparr> cap_size = 0x80000000, alloc_size = 0x80000008, used_size = 0, stale_size = 0,
       fresh_size = 0, free_size = 0x80000000, ring_buff = zero_mem, head_idx = 0,
       tail_idx = 0, seek_offs = 0 \<rparr>"

definition filled_huge :: sstm_ctx_t where
  "filled_huge =
     \<lparr> cap_size = 0x80000000, alloc_size = 0x80000008, used_size = 0x80000000, stale_size = 0,
       fresh_size = 0x80000000, free_size = 0, ring_buff = zero_mem, head_idx = 0,
       tail_idx = 0x80000000, seek_offs = 0 \<rparr>"

definition wrapped_huge :: sstm_ctx_t where
  "wrapped_huge =
     \<lparr> cap_size = 0x80000000, alloc_size = 0x80000008, used_size = 0x80000000, stale_size = 0,
       fresh_size = 0x80000000, free_size = 0, ring_buff = zero_mem, head_idx = 0x80000000,
       tail_idx = 0x7FFFFFFF, seek_offs = 0 \<rparr>"

definition drifted_huge :: sstm_ctx_t where
  "drifted_huge =
     \<lparr> cap_size = 0x80000000, alloc_size = 0x80000008, used_size = 0, stale_size = 0,
       fresh_size = 0, free_size = 0x80000000, ring_buff = zero_mem, head_idx = 0,
       tail_idx = 0x7FFFFFFF, seek_offs = 0 \<rparr>"

text \<open>
  The default stream after 1024 bytes went through it, which leaves head and tail on the last
  index; and after two zero bytes are written, of which one is read.
\<close>

definition at_edge :: sstm_ctx_t where
  "at_edge =
     \<lparr> cap_size = 1024, alloc_size = 1032, used_size = 0, stale_size = 0, fresh_size = 0,
       free_size = 1024, ring_buff = zero_mem, head_idx = 1024, tail_idx = 1024, seek_offs = 0 \<rparr>"

definition half_read :: sstm_ctx_t where
  "half_read =
     \<lparr> cap_size = 1024, alloc_size = 1032, used_size = 2, stale_size = 1, fresh_size = 1,
       free_size = 1022, ring_buff = zero_mem, head_idx = 0, tail_idx = 2, seek_offs = 1 \<rparr>"

text \<open>The stream \<open>half_read\<close> after its last byte is read, with and without reclaiming.\<close>

definition half_swept :: sstm_ctx_t where
  "half_swept =
     \<lparr> cap_size = 1024, alloc_size = 1032, used_size = 0, stale_size = 0, fresh_size = 0,
       free_size = 1024, ring_buff = zero_mem, head_idx = 2, tail_idx = 2, seek_offs = 0 \<rparr>"

definition half_kept :: sstm_ctx_t where
  "half_kept =
     \<lparr> cap_size = 1024, alloc_size = 1032, used_size = 2, stale_size = 2, fresh_size = 0,
       free_size = 1022, ring_buff = zero_mem, head_idx = 0, tail_idx = 2, seek_offs = 2 \<rparr>"

text \<open>
  The snapshot of \<open>at_edge\<close> after three bytes went in and out, and of \<open>drifted_huge\<close>
  after one byte did.
\<close>

definition at_edge_after :: sstm_stat_t where
  "at_edge_after =
     \<lparr> stat_cap_size = 1024, stat_used_size = 3, stat_stale_size = 3, stat_fresh_size = 0,
       stat_free_size = 1021, stat_seek_offs = 3 \<rparr>"

definition drifted_huge_after :: sstm_stat_t where
  "drifted_huge_after =
     \<lparr> stat_cap_size = 0x80000000, stat_used_size = 1, stat_stale_size = 1, stat_fresh_size = 0,
       stat_free_size = 0x7FFFFFFF, stat_seek_offs = 1 \<rparr>"

text \<open>
  A stream of capacity \<open>2 ^ 32 - 8\<close>, as \<^verbatim>\<open>sstm_new\<close> creates it when \<^verbatim>\<open>malloc(0)\<close> gives a
  block: the allocation size \<^verbatim>\<open>((cap_size >> 3) + 1) << 3\<close> is \<open>2 ^ 32\<close>, which is 0 in 32 bits.
\<close>

definition max_conf :: sstm_conf_t where
  "max_conf = \<lparr> conf_cap_size = 0xFFFFFFF8 \<rparr>"

definition empty_max :: sstm_ctx_t where
  "empty_max =
     \<lparr> cap_size = 0xFFFFFFF8, alloc_size = 0, used_size = 0, stale_size = 0,
       fresh_size = 0, free_size = 0xFFFFFFF8, ring_buff = zero_mem, head_idx = 0,
       tail_idx = 0, seek_offs = 0 \<rparr>"

section \<open>Properties\<close>

subsection \<open>The ways \<^verbatim>\<open>sstm_clean\<close> returns\<close>

lemma sstm_clean_zero: "stale_size ctx = 0 \<Longrightarrow> sstm_clean ctx = Inr (SSTM_OK, ctx)"
  by (simp add: sstm_clean_def Let_def)

lemma sstm_clean_trap:
  "stale_size ctx \<noteq> 0 \<Longrightarrow> cap_size ctx + 1 = 0 \<Longrightarrow> sstm_clean ctx = Inl DivByZero"
  by (simp add: sstm_clean_def Let_def)

lemma sstm_clean_nonzero:
  "stale_size ctx \<noteq> 0 \<Longrightarrow> cap_size ctx + 1 \<noteq> 0 \<Longrightarrow> sstm_clean ctx = Inr (SSTM_OK, cleaned ctx)"
  by (simp add: sstm_clean_def cleaned_def Let_def)

lemma clean_returns:
  assumes "sstm_clean ctx = Inr (r, ctx')"
  obtains
    (nothing) "stale_size ctx = 0" "r = SSTM_OK" "ctx' = ctx"
  | (reclaimed) "stale_size ctx \<noteq> 0" "cap_size ctx + 1 \<noteq> 0" "r = SSTM_OK" "ctx' = cleaned ctx"
proof (cases "stale_size ctx = 0")
  case True
  with assms have "r = SSTM_OK" "ctx' = ctx" by (simp_all add: sstm_clean_zero)
  with True show ?thesis by (rule nothing)
next
  case nz: False
  show ?thesis
  proof (cases "cap_size ctx + 1 = 0")
    case True
    with assms nz show ?thesis by (simp add: sstm_clean_trap)
  next
    case False
    with assms nz have "r = SSTM_OK" "ctx' = cleaned ctx" by (simp_all add: sstm_clean_nonzero)
    with nz False show ?thesis by (rule reclaimed)
  qed
qed

subsection \<open>The ways \<^verbatim>\<open>sstm_read\<close> returns\<close>

lemma sstm_read_zero: "sstm_read ctx data 0 cleanup = Inr (SSTM_OK, [], ctx)"
  by (simp add: sstm_read_def)

lemma sstm_read_no_data:
  "sz \<noteq> 0 \<Longrightarrow> fresh_size ctx < sz \<Longrightarrow> sstm_read ctx data sz cleanup = Inr (SSTM_ERR_NO_DATA, [], ctx)"
  by (simp add: sstm_read_def)

lemma sstm_read_trap:
  "sz \<noteq> 0 \<Longrightarrow> \<not> fresh_size ctx < sz \<Longrightarrow> cap_size ctx + 1 = 0 \<Longrightarrow>
   sstm_read ctx data sz cleanup = Inl DivByZero"
  by (simp add: sstm_read_def)

lemma sstm_read_unfold:
  assumes "sz \<noteq> 0" and "\<not> fresh_size ctx < sz" and "cap_size ctx + 1 \<noteq> 0"
  shows "sstm_read ctx data sz cleanup =
           (case read_copy ctx data sz of
              Inl f \<Rightarrow> Inl f
            | Inr out \<Rightarrow>
                if cleanup then
                  (case sstm_clean (advanced ctx sz) of
                     Inl f \<Rightarrow> Inl f
                   | Inr (r, ctx'') \<Rightarrow> Inr (SSTM_OK, out, ctx''))
                else Inr (SSTM_OK, out, advanced ctx sz))"
  unfolding sstm_read_def read_copy_def advanced_def Let_def
  by (simp only: assms if_False)

lemma read_returns:
  assumes "sstm_read ctx data sz cleanup = Inr (r, out, ctx')"
  obtains
    (zero) "sz = 0" "r = SSTM_OK" "out = []" "ctx' = ctx"
  | (no_data) "sz \<noteq> 0" "fresh_size ctx < sz" "r = SSTM_ERR_NO_DATA" "out = []" "ctx' = ctx"
  | (plain) "sz \<noteq> 0" "sz \<le> fresh_size ctx" "cap_size ctx + 1 \<noteq> 0" "\<not> cleanup"
      "r = SSTM_OK" "ctx' = advanced ctx sz" "read_copy ctx data sz = Inr out"
  | (swept) "sz \<noteq> 0" "sz \<le> fresh_size ctx" "cap_size ctx + 1 \<noteq> 0" "cleanup"
      "r = SSTM_OK" "sstm_clean (advanced ctx sz) = Inr (SSTM_OK, ctx')"
      "read_copy ctx data sz = Inr out"
proof (cases "sz = 0")
  case True
  with assms have "r = SSTM_OK" "out = []" "ctx' = ctx" by (simp_all add: sstm_read_zero)
  with True show ?thesis by (rule zero)
next
  case nz: False
  show ?thesis
  proof (cases "fresh_size ctx < sz")
    case True
    with assms nz have "r = SSTM_ERR_NO_DATA" "out = []" "ctx' = ctx"
      by (simp_all add: sstm_read_no_data)
    with nz True show ?thesis by (rule no_data)
  next
    case nlt: False
    then have le: "sz \<le> fresh_size ctx" by simp
    have c1: "cap_size ctx + 1 \<noteq> 0"
    proof
      assume "cap_size ctx + 1 = 0"
      with nz nlt have "sstm_read ctx data sz cleanup = Inl DivByZero"
        by (rule sstm_read_trap)
      with assms show False by simp
    qed
    note unf = sstm_read_unfold [OF nz nlt c1, of data cleanup]
    from assms unf obtain out' where cp: "read_copy ctx data sz = Inr out'"
      by (cases "read_copy ctx data sz") simp_all
    show ?thesis
    proof (cases cleanup)
      case True
      from assms unf cp True obtain r' c' where cl: "sstm_clean (advanced ctx sz) = Inr (r', c')"
        by (cases "sstm_clean (advanced ctx sz)") auto
      with assms unf cp True have "r = SSTM_OK" "out = out'" "ctx' = c'" by simp_all
      moreover have "r' = SSTM_OK" using cl by (rule clean_returns) simp_all
      ultimately show ?thesis
        using swept nz le c1 True cl cp by blast
    next
      case False
      with assms unf cp have "r = SSTM_OK" "out = out'" "ctx' = advanced ctx sz" by simp_all
      then show ?thesis
        using plain nz le c1 False cp by blast
    qed
  qed
qed

subsection \<open>The ways \<^verbatim>\<open>sstm_write\<close> returns\<close>

lemma sstm_write_zero: "sstm_write ctx data 0 = Inr (SSTM_OK, ctx)"
  by (simp add: sstm_write_def)

lemma sstm_write_no_space:
  "sz \<noteq> 0 \<Longrightarrow> free_size ctx < sz \<Longrightarrow> sstm_write ctx data sz = Inr (SSTM_ERR_NO_SPACE, ctx)"
  by (simp add: sstm_write_def)

lemma sstm_write_single:
  assumes "sz \<noteq> 0" and "\<not> free_size ctx < sz" and "cap_size ctx + 1 - tail_idx ctx \<ge> sz"
  shows "sstm_write ctx data sz =
           (case write_copy ctx data sz of
              Inl f \<Rightarrow> Inl f
            | Inr buf \<Rightarrow>
                if cap_size ctx + 1 = 0 then Inl DivByZero
                else Inr (SSTM_OK, wrote ctx buf (write_tail ctx sz) sz))"
proof (cases "write_copy ctx data sz")
  case (Inl f)
  with assms show ?thesis
    by (simp add: sstm_write_def write_copy_def)
next
  case (Inr buf)
  with assms show ?thesis
    by (simp add: sstm_write_def write_copy_def write_tail_def wrote_def)
qed

lemma sstm_write_split:
  assumes "sz \<noteq> 0" and "\<not> free_size ctx < sz" and "\<not> cap_size ctx + 1 - tail_idx ctx \<ge> sz"
  shows "sstm_write ctx data sz =
           (case write_copy ctx data sz of
              Inl f \<Rightarrow> Inl f
            | Inr buf \<Rightarrow> Inr (SSTM_OK, wrote ctx buf (write_tail ctx sz) sz))"
proof (cases "copy_or_zero (ring_buff ctx) (unat (alloc_size ctx))
               (unat (tail_idx ctx)) data 0 (unat (cap_size ctx + 1 - tail_idx ctx))")
  case (Inl f)
  with assms show ?thesis
    by (simp add: sstm_write_def write_copy_def Let_def)
next
  case first: (Inr buf1)
  show ?thesis
  proof (cases "copy_or_zero buf1 (unat (alloc_size ctx)) 0 data
              (unat (cap_size ctx + 1 - tail_idx ctx))
              (unat (sz - (cap_size ctx + 1 - tail_idx ctx)))")
    case (Inl f)
    with assms first show ?thesis
      by (simp add: sstm_write_def write_copy_def Let_def)
  next
    case (Inr buf2)
    with assms first show ?thesis
      by (simp add: sstm_write_def write_copy_def write_tail_def wrote_def Let_def)
  qed
qed

lemma write_returns:
  assumes "sstm_write ctx data sz = Inr (r, ctx')"
  obtains
    (zero) "sz = 0" "r = SSTM_OK" "ctx' = ctx"
  | (no_space) "sz \<noteq> 0" "free_size ctx < sz" "r = SSTM_ERR_NO_SPACE" "ctx' = ctx"
  | (stored) buf where "sz \<noteq> 0" "sz \<le> free_size ctx" "r = SSTM_OK"
      "write_copy ctx data sz = Inr buf" "ctx' = wrote ctx buf (write_tail ctx sz) sz"
      "cap_size ctx + 1 - tail_idx ctx \<ge> sz \<longrightarrow> cap_size ctx + 1 \<noteq> 0"
proof (cases "sz = 0")
  case True
  with assms have "r = SSTM_OK" "ctx' = ctx" by (simp_all add: sstm_write_zero)
  with True show ?thesis by (rule zero)
next
  case nz: False
  show ?thesis
  proof (cases "free_size ctx < sz")
    case True
    with assms nz have "r = SSTM_ERR_NO_SPACE" "ctx' = ctx"
      by (simp_all add: sstm_write_no_space)
    with nz True show ?thesis by (rule no_space)
  next
    case nlt: False
    then have le: "sz \<le> free_size ctx" by simp
    show ?thesis
    proof (cases "cap_size ctx + 1 - tail_idx ctx \<ge> sz")
      case True
      note unf = sstm_write_single [OF nz nlt True, of data]
      from assms unf obtain buf where cp: "write_copy ctx data sz = Inr buf"
        by (cases "write_copy ctx data sz") simp_all
      from assms unf cp have "cap_size ctx + 1 \<noteq> 0" "r = SSTM_OK"
        "ctx' = wrote ctx buf (write_tail ctx sz) sz"
        by (auto split: if_splits)
      then show ?thesis using stored nz le cp by blast
    next
      case False
      note unf = sstm_write_split [OF nz nlt False, of data]
      from assms unf obtain buf where cp: "write_copy ctx data sz = Inr buf"
        by (cases "write_copy ctx data sz") simp_all
      from assms unf cp have "r = SSTM_OK" "ctx' = wrote ctx buf (write_tail ctx sz) sz"
        by auto
      then show ?thesis using stored nz le cp False by blast
    qed
  qed
qed

subsection \<open>The ways \<^verbatim>\<open>sstm_seek\<close> returns\<close>

lemma sstm_seek_unfold:
  "sstm_seek ctx offset whence =
     (if sint (seek_abs ctx offset whence) < 0 then Inr (SSTM_ERR_BAD_OFFS, ctx)
      else if seek_abs ctx offset whence > used_size ctx then Inr (SSTM_ERR_BAD_OFFS, ctx)
      else if seek_abs ctx offset whence = seek_offs ctx then Inr (SSTM_OK, ctx)
      else Inr (SSTM_OK, sought ctx (seek_abs ctx offset whence)))"
  by (simp add: sstm_seek_def seek_abs_def sought_def Let_def)

lemma seek_returns:
  assumes "sstm_seek ctx offset whence = Inr (r, ctx')"
  obtains
    (rejected) "sint (seek_abs ctx offset whence) < 0 \<or> seek_abs ctx offset whence > used_size ctx"
      "r = SSTM_ERR_BAD_OFFS" "ctx' = ctx"
  | (stay) "seek_abs ctx offset whence \<le> used_size ctx" "seek_abs ctx offset whence = seek_offs ctx"
      "r = SSTM_OK" "ctx' = ctx"
  | (moved) "seek_abs ctx offset whence \<le> used_size ctx" "r = SSTM_OK"
      "ctx' = sought ctx (seek_abs ctx offset whence)"
proof (cases "sint (seek_abs ctx offset whence) < 0 \<or> seek_abs ctx offset whence > used_size ctx")
  case True
  then have "sstm_seek ctx offset whence = Inr (SSTM_ERR_BAD_OFFS, ctx)"
    by (auto simp: sstm_seek_unfold)
  with assms have "r = SSTM_ERR_BAD_OFFS" "ctx' = ctx"
    by simp_all
  with True show ?thesis by (rule rejected)
next
  case False
  then have le: "seek_abs ctx offset whence \<le> used_size ctx" and
    nn: "\<not> sint (seek_abs ctx offset whence) < 0" "\<not> seek_abs ctx offset whence > used_size ctx"
    by (simp_all add: not_less)
  show ?thesis
  proof (cases "seek_abs ctx offset whence = seek_offs ctx")
    case True
    with assms nn have "r = SSTM_OK" "ctx' = ctx"
      by (simp_all add: sstm_seek_unfold)
    with le True show ?thesis by (rule stay)
  next
    case False
    with assms nn have "r = SSTM_OK" "ctx' = sought ctx (seek_abs ctx offset whence)"
      by (simp_all add: sstm_seek_unfold)
    with le show ?thesis by (rule moved)
  qed
qed

subsection \<open>Words as numbers\<close>

lemma unat_lt_32: "unat (x :: 32 word) < 4294967296"
  using unsigned_less [of x, where 'a = nat] by simp

lemma unat_add_32:
  "unat a + unat b < 4294967296 \<Longrightarrow> unat (a + b :: 32 word) = unat a + unat b"
  using unat_add_lem [of a b] by simp

lemma unat_succ_32: "(c :: 32 word) + 1 \<noteq> 0 \<Longrightarrow> unat (c + 1) = unat c + 1"
proof -
  assume nz: "c + 1 \<noteq> 0"
  have "unat c + 1 < 4294967296"
  proof (rule ccontr)
    assume "\<not> unat c + 1 < 4294967296"
    with unat_lt_32 [of c] have "unat c = 4294967295" by simp
    then have "c = 4294967295" by (simp add: word_unat_eq_iff)
    with nz show False by simp
  qed
  then show ?thesis using unat_add_32 [of c 1] by simp
qed

lemma word_mod_le_cap:
  fixes x c :: "32 word"
  assumes "c + 1 \<noteq> 0"
  shows "unat (x mod (c + 1)) \<le> unat c"
proof -
  have "unat (c + 1) = unat c + 1"
    using assms by (rule unat_succ_32)
  moreover have "unat (x mod (c + 1)) < unat (c + 1)"
    using assms by (simp add: unat_mod unat_gt_0)
  ultimately show ?thesis by simp
qed

subsection \<open>The counters and the index bounds, whatever the capacity\<close>

lemma cleaned_counters_ok:
  assumes ok: "counters_ok ctx" and c1: "cap_size ctx + 1 \<noteq> 0"
  shows "counters_ok (cleaned ctx)"
proof -
  from ok have u: "unat (used_size ctx) = unat (stale_size ctx) + unat (fresh_size ctx)"
    and f: "unat (free_size ctx) + unat (used_size ctx) = unat (cap_size ctx)"
    and t: "unat (tail_idx ctx) \<le> unat (cap_size ctx)"
    by (simp_all add: counters_ok_def)
  have "stale_size ctx \<le> used_size ctx"
    using u by (simp add: word_le_nat_alt)
  then have 1: "unat (used_size ctx - stale_size ctx) = unat (used_size ctx) - unat (stale_size ctx)"
    by (rule unat_sub)
  have "unat (free_size ctx) + unat (stale_size ctx) < 4294967296"
    using u f unat_lt_32 [of "cap_size ctx"] by linarith
  then have 2: "unat (free_size ctx + stale_size ctx) = unat (free_size ctx) + unat (stale_size ctx)"
    by (rule unat_add_32)
  have 3: "unat ((head_idx ctx + stale_size ctx) mod (cap_size ctx + 1)) \<le> unat (cap_size ctx)"
    using c1 by (rule word_mod_le_cap)
  show ?thesis
    using u f t 1 2 3 by (simp add: counters_ok_def cleaned_def)
qed

lemma clean_counters_ok:
  assumes "counters_ok ctx" and "sstm_clean ctx = Inr (r, ctx')"
  shows "counters_ok ctx'"
  using assms(2)
proof (cases rule: clean_returns)
  case nothing
  with assms show ?thesis by simp
next
  case reclaimed
  with assms show ?thesis by (simp add: cleaned_counters_ok)
qed

lemma advanced_counters_ok:
  assumes ok: "counters_ok ctx" and le: "sz \<le> fresh_size ctx"
  shows "counters_ok (advanced ctx sz)"
proof -
  from ok have u: "unat (used_size ctx) = unat (stale_size ctx) + unat (fresh_size ctx)"
    and f: "unat (free_size ctx) + unat (used_size ctx) = unat (cap_size ctx)"
    and s: "seek_offs ctx = stale_size ctx"
    and h: "unat (head_idx ctx) \<le> unat (cap_size ctx)"
    and t: "unat (tail_idx ctx) \<le> unat (cap_size ctx)"
    by (simp_all add: counters_ok_def)
  from le have n: "unat sz \<le> unat (fresh_size ctx)" by (simp add: word_le_nat_alt)
  from le have 1: "unat (fresh_size ctx - sz) = unat (fresh_size ctx) - unat sz"
    by (rule unat_sub)
  have "unat (stale_size ctx) + unat sz < 4294967296"
    using u n unat_lt_32 [of "used_size ctx"] by linarith
  then have 2: "unat (stale_size ctx + sz) = unat (stale_size ctx) + unat sz"
    by (rule unat_add_32)
  show ?thesis
    using u f s h t n 1 2 by (simp add: counters_ok_def advanced_def)
qed

lemma read_counters_ok:
  assumes "counters_ok ctx" and "sstm_read ctx data sz cleanup = Inr (r, out, ctx')"
  shows "counters_ok ctx'"
  using assms(2)
proof (cases rule: read_returns)
  case zero
  with assms show ?thesis by simp
next
  case no_data
  with assms show ?thesis by simp
next
  case plain
  with assms show ?thesis by (simp add: advanced_counters_ok)
next
  case swept
  with assms show ?thesis
    using clean_counters_ok advanced_counters_ok by blast
qed

lemma write_tail_le_cap:
  assumes ok: "counters_ok ctx" and le: "sz \<le> free_size ctx"
    and c1: "cap_size ctx + 1 - tail_idx ctx \<ge> sz \<longrightarrow> cap_size ctx + 1 \<noteq> 0"
  shows "unat (write_tail ctx sz) \<le> unat (cap_size ctx)"
proof (cases "cap_size ctx + 1 - tail_idx ctx \<ge> sz")
  case True
  with c1 have "cap_size ctx + 1 \<noteq> 0" by simp
  then have "unat ((tail_idx ctx + sz) mod (cap_size ctx + 1)) \<le> unat (cap_size ctx)"
    by (rule word_mod_le_cap)
  with True show ?thesis by (simp add: write_tail_def)
next
  case False
  then have "cap_size ctx + 1 - tail_idx ctx \<le> sz" by simp
  then have "unat (sz - (cap_size ctx + 1 - tail_idx ctx)) = unat sz - unat (cap_size ctx + 1 - tail_idx ctx)"
    by (rule unat_sub)
  moreover from le have "unat sz \<le> unat (free_size ctx)" by (simp add: word_le_nat_alt)
  moreover from ok have "unat (free_size ctx) \<le> unat (cap_size ctx)" by (simp add: counters_ok_def)
  ultimately show ?thesis using False by (simp add: write_tail_def)
qed

lemma wrote_counters_ok:
  assumes ok: "counters_ok ctx" and le: "sz \<le> free_size ctx"
    and tl: "unat t \<le> unat (cap_size ctx)"
  shows "counters_ok (wrote ctx buf t sz)"
proof -
  from ok have u: "unat (used_size ctx) = unat (stale_size ctx) + unat (fresh_size ctx)"
    and f: "unat (free_size ctx) + unat (used_size ctx) = unat (cap_size ctx)"
    and s: "seek_offs ctx = stale_size ctx"
    and h: "unat (head_idx ctx) \<le> unat (cap_size ctx)"
    by (simp_all add: counters_ok_def)
  from le have n: "unat sz \<le> unat (free_size ctx)" by (simp add: word_le_nat_alt)
  from le have 1: "unat (free_size ctx - sz) = unat (free_size ctx) - unat sz"
    by (rule unat_sub)
  have "unat (used_size ctx) + unat sz < 4294967296"
    using f n unat_lt_32 [of "cap_size ctx"] by linarith
  then have 2: "unat (used_size ctx + sz) = unat (used_size ctx) + unat sz"
    by (rule unat_add_32)
  have "unat (fresh_size ctx) + unat sz < 4294967296"
    using u f n unat_lt_32 [of "cap_size ctx"] by linarith
  then have 3: "unat (fresh_size ctx + sz) = unat (fresh_size ctx) + unat sz"
    by (rule unat_add_32)
  show ?thesis
    using u f s h tl n 1 2 3 by (simp add: counters_ok_def wrote_def)
qed

lemma write_counters_ok:
  assumes "counters_ok ctx" and "sstm_write ctx data sz = Inr (r, ctx')"
  shows "counters_ok ctx'"
  using assms(2)
proof (cases rule: write_returns)
  case zero
  with assms show ?thesis by simp
next
  case no_space
  with assms show ?thesis by simp
next
  case (stored buf)
  with assms show ?thesis
    by (simp add: wrote_counters_ok write_tail_le_cap)
qed

lemma sought_counters_ok:
  assumes ok: "counters_ok ctx" and le: "a \<le> used_size ctx"
  shows "counters_ok (sought ctx a)"
proof -
  from le have "unat (used_size ctx - a) = unat (used_size ctx) - unat a"
    by (rule unat_sub)
  moreover from le have "unat a \<le> unat (used_size ctx)" by (simp add: word_le_nat_alt)
  ultimately show ?thesis
    using ok by (simp add: counters_ok_def sought_def)
qed

lemma seek_counters_ok:
  assumes "counters_ok ctx" and "sstm_seek ctx offset whence = Inr (r, ctx')"
  shows "counters_ok ctx'"
  using assms(2)
proof (cases rule: seek_returns)
  case rejected
  with assms show ?thesis by simp
next
  case stay
  with assms show ?thesis by simp
next
  case moved
  with assms show ?thesis by (simp add: sought_counters_ok)
qed

lemma step_counters_ok:
  assumes "counters_ok ctx" and "step c ctx = Inr (r, out, ctx')"
  shows "counters_ok ctx'"
proof (cases c)
  case (Write data sz)
  with assms show ?thesis
    by (auto split: sum.splits dest: write_counters_ok)
next
  case (Read data sz cleanup)
  with assms show ?thesis
    by (auto dest: read_counters_ok)
next
  case (Seek offset whence)
  with assms show ?thesis
    by (auto split: sum.splits dest: seek_counters_ok)
next
  case Clean
  with assms show ?thesis
    by (auto split: sum.splits dest: clean_counters_ok)
qed

lemma new_counters_ok:
  assumes "sstm_new conf ring_malloc ctx_malloc = Inr (r, Some ctx, live)"
  shows "counters_ok ctx"
  using assms
  by (auto simp: sstm_new_def Let_def counters_ok_def split: option.splits if_splits)

lemma reachable_counters_ok: "reachable ctx \<Longrightarrow> counters_ok ctx"
  by (induction rule: reachable.induct) (auto intro: new_counters_ok step_counters_ok)

subsection \<open>The fields that no call changes\<close>

lemma step_keeps_sizes:
  assumes "step c ctx = Inr (r, out, ctx')"
  shows "cap_size ctx' = cap_size ctx \<and> alloc_size ctx' = alloc_size ctx"
proof (cases c)
  case (Write data sz)
  with assms obtain r' where "sstm_write ctx data sz = Inr (r', ctx')"
    by (auto split: sum.splits)
  then show ?thesis
    by (cases rule: write_returns) (simp_all add: wrote_def)
next
  case (Read data sz cleanup)
  with assms have "sstm_read ctx data sz cleanup = Inr (r, out, ctx')" by simp
  then show ?thesis
  proof (cases rule: read_returns)
    case swept
    from swept(6) show ?thesis
      by (cases rule: clean_returns) (simp_all add: advanced_def cleaned_def)
  qed (simp_all add: advanced_def)
next
  case (Seek offset whence)
  with assms obtain r' where "sstm_seek ctx offset whence = Inr (r', ctx')"
    by (auto split: sum.splits)
  then show ?thesis
    by (cases rule: seek_returns) (simp_all add: sought_def)
next
  case Clean
  with assms obtain r' where "sstm_clean ctx = Inr (r', ctx')"
    by (auto split: sum.splits)
  then show ?thesis
    by (cases rule: clean_returns) (simp_all add: cleaned_def)
qed

lemma new_alloc_ok:
  assumes "sstm_new conf ring_malloc ctx_malloc = Inr (r, Some ctx, live)"
  shows "alloc_ok ctx"
  using assms
  by (auto simp: sstm_new_def Let_def alloc_ok_def split: option.splits if_splits)

lemma reachable_alloc_ok: "reachable ctx \<Longrightarrow> alloc_ok ctx"
proof (induction rule: reachable.induct)
  case (created conf ring_malloc ctx_malloc ctx live)
  then show ?case by (rule new_alloc_ok)
next
  case (called ctx c r out ctx')
  then show ?case using step_keeps_sizes [of c ctx r out ctx'] by (simp add: alloc_ok_def)
qed

lemma alloc_covers:
  fixes cap :: "32 word"
  assumes "unat cap < 4294967288"
  shows "unat cap + 1 \<le> unat (push_bit 3 (drop_bit 3 cap + 1))"
proof -
  have d: "unat (drop_bit 3 cap) = unat cap div 8"
    by (simp add: unat_drop_bit_eq drop_bit_eq_div unat_div)
  have "unat (drop_bit 3 cap) + unat (1 :: 32 word) < 4294967296"
    using assms d by simp
  then have s: "unat (drop_bit 3 cap + 1) = unat cap div 8 + 1"
    using d unat_add_32 [of "drop_bit 3 cap" 1] by simp
  have "unat (drop_bit 3 cap + 1) * unat (8 :: 32 word) < 2 ^ LENGTH(32)"
    using assms s by simp
  then have "unat ((drop_bit 3 cap + 1) * 8) = unat (drop_bit 3 cap + 1) * unat (8 :: 32 word)"
    by (simp only: unat_mult_lem)
  then have "unat (push_bit 3 (drop_bit 3 cap + 1)) = (unat cap div 8 + 1) * 8"
    using s by (simp add: push_bit_eq_mult)
  then show ?thesis by simp
qed

subsection \<open>The distance from head to tail, for a capacity below \<open>2 ^ 31\<close>\<close>

lemma small_cap_succ:
  assumes "unat (cap_size ctx) < 4294967295"
  shows "cap_size ctx + 1 \<noteq> 0" and "unat (cap_size ctx + 1) = unat (cap_size ctx) + 1"
proof -
  have "unat (cap_size ctx) + unat (1 :: 32 word) < 4294967296"
    using assms by simp
  then show "unat (cap_size ctx + 1) = unat (cap_size ctx) + 1"
    using unat_add_32 [of "cap_size ctx" 1] by simp
  then show "cap_size ctx + 1 \<noteq> 0"
    by (metis Suc_eq_plus1 nat.distinct(1) unat_0)
qed

lemma write_tail_unat:
  assumes big: "unat (cap_size ctx) < 4294967295"
    and t: "unat (tail_idx ctx) \<le> unat (cap_size ctx)"
    and n: "unat sz \<le> unat (cap_size ctx)"
  shows "unat (write_tail ctx sz) = (unat (tail_idx ctx) + unat sz) mod (unat (cap_size ctx) + 1)"
proof -
  note m = small_cap_succ [OF big]
  have "tail_idx ctx \<le> cap_size ctx + 1"
    using t m by (simp add: word_le_nat_alt)
  then have first: "unat (cap_size ctx + 1 - tail_idx ctx) = unat (cap_size ctx) + 1 - unat (tail_idx ctx)"
    using m by (simp add: unat_sub)
  show ?thesis
  proof (cases "cap_size ctx + 1 - tail_idx ctx \<ge> sz")
    case True
    then have le: "unat sz \<le> unat (cap_size ctx) + 1 - unat (tail_idx ctx)"
      using first by (simp add: word_le_nat_alt)
    then have "unat (tail_idx ctx) + unat sz < 4294967296"
      using big t by linarith
    then have "unat (tail_idx ctx + sz) = unat (tail_idx ctx) + unat sz"
      by (rule unat_add_32)
    then show ?thesis
      using True m by (simp add: write_tail_def unat_mod)
  next
    case False
    then have lt: "unat (cap_size ctx) + 1 - unat (tail_idx ctx) < unat sz"
      using first by (simp add: word_le_nat_alt not_le)
    from False have "cap_size ctx + 1 - tail_idx ctx \<le> sz" by simp
    then have second: "unat (sz - (cap_size ctx + 1 - tail_idx ctx)) =
        unat sz - (unat (cap_size ctx) + 1 - unat (tail_idx ctx))"
      using first by (simp add: unat_sub)
    have ge: "unat (cap_size ctx) + 1 \<le> unat (tail_idx ctx) + unat sz"
      using lt by linarith
    have "(unat (tail_idx ctx) + unat sz) mod (unat (cap_size ctx) + 1) =
          (unat (tail_idx ctx) + unat sz - (unat (cap_size ctx) + 1)) mod (unat (cap_size ctx) + 1)"
      using ge by (rule le_mod_geq)
    also have "\<dots> = unat (tail_idx ctx) + unat sz - (unat (cap_size ctx) + 1)"
      using t n by (intro mod_less) linarith
    finally show ?thesis
      using False second t lt by (simp add: write_tail_def)
  qed
qed

lemma wrote_dist_ok:
  assumes ok: "counters_ok ctx" and d: "dist_ok ctx" and big: "unat (cap_size ctx) < 4294967295"
    and le: "sz \<le> free_size ctx"
  shows "dist_ok (wrote ctx buf (write_tail ctx sz) sz)"
proof -
  from ok have f: "unat (free_size ctx) + unat (used_size ctx) = unat (cap_size ctx)"
    and t: "unat (tail_idx ctx) \<le> unat (cap_size ctx)"
    by (simp_all add: counters_ok_def)
  from le have n: "unat sz \<le> unat (free_size ctx)" by (simp add: word_le_nat_alt)
  have "unat (used_size ctx) + unat sz < 4294967296"
    using f n big by linarith
  then have u: "unat (used_size ctx + sz) = unat (used_size ctx) + unat sz"
    by (rule unat_add_32)
  have tl: "unat (write_tail ctx sz) = (unat (tail_idx ctx) + unat sz) mod (unat (cap_size ctx) + 1)"
    using big t f n by (intro write_tail_unat) linarith+
  have "(unat (head_idx ctx) + (unat (used_size ctx) + unat sz)) mod (unat (cap_size ctx) + 1) =
        ((unat (head_idx ctx) + unat (used_size ctx)) mod (unat (cap_size ctx) + 1) + unat sz)
          mod (unat (cap_size ctx) + 1)"
    by (simp add: mod_add_left_eq add.assoc)
  also have "\<dots> = (unat (tail_idx ctx) + unat sz) mod (unat (cap_size ctx) + 1)"
    using d by (simp add: dist_ok_def)
  finally show ?thesis
    using u tl by (simp add: dist_ok_def wrote_def)
qed

lemma cleaned_dist_ok:
  assumes ok: "counters_ok ctx" and d: "dist_ok ctx" and small: "unat (cap_size ctx) < 2147483648"
  shows "dist_ok (cleaned ctx)"
proof -
  from ok have u: "unat (used_size ctx) = unat (stale_size ctx) + unat (fresh_size ctx)"
    and f: "unat (free_size ctx) + unat (used_size ctx) = unat (cap_size ctx)"
    and h: "unat (head_idx ctx) \<le> unat (cap_size ctx)"
    by (simp_all add: counters_ok_def)
  have big: "unat (cap_size ctx) < 4294967295" using small by simp
  note m = small_cap_succ [OF big]
  have "stale_size ctx \<le> used_size ctx"
    using u by (simp add: word_le_nat_alt)
  then have 1: "unat (used_size ctx - stale_size ctx) = unat (used_size ctx) - unat (stale_size ctx)"
    by (rule unat_sub)
  have "unat (head_idx ctx) + unat (stale_size ctx) < 4294967296"
    using u f h small by linarith
  then have "unat (head_idx ctx + stale_size ctx) = unat (head_idx ctx) + unat (stale_size ctx)"
    by (rule unat_add_32)
  then have 2: "unat ((head_idx ctx + stale_size ctx) mod (cap_size ctx + 1)) =
      (unat (head_idx ctx) + unat (stale_size ctx)) mod (unat (cap_size ctx) + 1)"
    using m by (simp add: unat_mod)
  have "((unat (head_idx ctx) + unat (stale_size ctx)) mod (unat (cap_size ctx) + 1) +
          (unat (used_size ctx) - unat (stale_size ctx))) mod (unat (cap_size ctx) + 1) =
        (unat (head_idx ctx) + unat (stale_size ctx) + (unat (used_size ctx) - unat (stale_size ctx)))
          mod (unat (cap_size ctx) + 1)"
    by (simp add: mod_add_left_eq)
  also have "\<dots> = (unat (head_idx ctx) + unat (used_size ctx)) mod (unat (cap_size ctx) + 1)"
    using u by (simp add: add.assoc)
  also have "\<dots> = unat (tail_idx ctx)"
    using d by (simp add: dist_ok_def)
  finally show ?thesis
    using 1 2 by (simp add: dist_ok_def cleaned_def)
qed

lemma step_dist_ok:
  assumes ok: "counters_ok ctx" and d: "dist_ok ctx" and small: "unat (cap_size ctx) < 2147483648"
    and st: "step c ctx = Inr (r, out, ctx')"
  shows "dist_ok ctx'"
proof (cases c)
  case (Write data sz)
  with st obtain r' where "sstm_write ctx data sz = Inr (r', ctx')"
    by (auto split: sum.splits)
  then show ?thesis
  proof (cases rule: write_returns)
    case (stored buf)
    with ok d small show ?thesis by (simp add: wrote_dist_ok)
  qed (simp_all add: d)
next
  case (Read data sz cleanup)
  with st have rd: "sstm_read ctx data sz cleanup = Inr (r, out, ctx')" by simp
  have adv: "dist_ok (advanced ctx sz)"
    using d by (simp add: dist_ok_def advanced_def)
  from rd show ?thesis
  proof (cases rule: read_returns)
    case plain
    with adv show ?thesis by simp
  next
    case swept
    have "counters_ok (advanced ctx sz)"
      using ok swept(2) by (rule advanced_counters_ok)
    moreover have "unat (cap_size (advanced ctx sz)) < 2147483648"
      using small by (simp add: advanced_def)
    ultimately have "dist_ok (cleaned (advanced ctx sz))"
      using adv by (intro cleaned_dist_ok)
    with swept(6) adv show ?thesis
      by (cases rule: clean_returns) simp_all
  qed (simp_all add: d)
next
  case (Seek offset whence)
  with st obtain r' where "sstm_seek ctx offset whence = Inr (r', ctx')"
    by (auto split: sum.splits)
  then show ?thesis
    using d by (cases rule: seek_returns) (simp_all add: dist_ok_def sought_def)
next
  case Clean
  with st obtain r' where "sstm_clean ctx = Inr (r', ctx')"
    by (auto split: sum.splits)
  then show ?thesis
    using ok d small by (cases rule: clean_returns) (simp_all add: cleaned_dist_ok)
qed

lemma new_dist_ok:
  assumes "sstm_new conf ring_malloc ctx_malloc = Inr (r, Some ctx, live)"
  shows "dist_ok ctx"
  using assms
  by (auto simp: sstm_new_def Let_def dist_ok_def split: option.splits if_splits)

lemma reachable_dist_ok:
  "reachable ctx \<Longrightarrow> unat (cap_size ctx) < 2147483648 \<Longrightarrow> dist_ok ctx"
proof (induction rule: reachable.induct)
  case (created conf ring_malloc ctx_malloc ctx live)
  then show ?case by (simp add: new_dist_ok)
next
  case (called ctx c r out ctx')
  from called.hyps(2) have "cap_size ctx' = cap_size ctx"
    by (simp add: step_keeps_sizes)
  with called.prems have small: "unat (cap_size ctx) < 2147483648" by simp
  have "counters_ok ctx" using called.hyps(1) by (rule reachable_counters_ok)
  moreover have "dist_ok ctx" using small by (rule called.IH)
  ultimately show ?case using small called.hyps(2) by (rule step_dist_ok)
qed

subsection \<open>From the facts on natural numbers to the five invariants\<close>

lemma counters_ok_invs:
  assumes ok: "counters_ok ctx"
  shows "inv_used ctx" and "inv_free ctx" and "inv_cursor ctx" and "inv_indices ctx"
proof -
  from ok have u: "unat (used_size ctx) = unat (stale_size ctx) + unat (fresh_size ctx)"
    and f: "unat (free_size ctx) + unat (used_size ctx) = unat (cap_size ctx)"
    and s: "seek_offs ctx = stale_size ctx"
    and h: "unat (head_idx ctx) \<le> unat (cap_size ctx)"
    and t: "unat (tail_idx ctx) \<le> unat (cap_size ctx)"
    by (simp_all add: counters_ok_def)
  from u have "int (unat (used_size ctx)) = int (unat (stale_size ctx) + unat (fresh_size ctx))"
    by (rule arg_cong)
  then show iu: "inv_used ctx"
    by (simp add: inv_used_def)
  from f have "int (unat (free_size ctx) + unat (used_size ctx)) = int (unat (cap_size ctx))"
    by (rule arg_cong)
  then show "inv_free ctx"
    by (simp add: inv_free_def)
  from iu s show "inv_cursor ctx"
    by (simp add: inv_cursor_def inv_used_def)
  from h t show "inv_indices ctx"
    by (simp add: inv_indices_def un_ui_le)
qed

lemma dist_ok_inv_distance:
  assumes ok: "counters_ok ctx" and d: "dist_ok ctx"
  shows "inv_distance ctx"
proof -
  let ?m = "uint (cap_size ctx) + 1"
  from ok have "unat (used_size ctx) \<le> unat (cap_size ctx)"
    by (simp add: counters_ok_def)
  then have "uint (used_size ctx) \<le> uint (cap_size ctx)"
    by (simp add: un_ui_le)
  then have small: "uint (used_size ctx) mod ?m = uint (used_size ctx)"
    by (simp add: mod_pos_pos_trivial)
  from d have "int ((unat (head_idx ctx) + unat (used_size ctx)) mod (unat (cap_size ctx) + 1)) =
      int (unat (tail_idx ctx))"
    by (simp add: dist_ok_def)
  then have t: "uint (tail_idx ctx) = (uint (head_idx ctx) + uint (used_size ctx)) mod ?m"
    by (simp add: zmod_int add.commute)
  have "(uint (tail_idx ctx) - uint (head_idx ctx)) mod ?m =
        ((uint (head_idx ctx) + uint (used_size ctx)) mod ?m - uint (head_idx ctx)) mod ?m"
    using t by simp
  also have "\<dots> = (uint (head_idx ctx) + uint (used_size ctx) - uint (head_idx ctx)) mod ?m"
    by (simp only: mod_diff_left_eq)
  also have "\<dots> = uint (used_size ctx)"
    using small by simp
  finally show ?thesis
    by (simp add: inv_distance_def)
qed

subsection \<open>The offset of a seek, as a number\<close>

lemma sint_32_low: "uint (w :: 32 word) < 2147483648 \<Longrightarrow> sint w = uint w"
proof -
  assume "uint w < 2147483648"
  moreover have "0 \<le> uint w" by simp
  ultimately have "- 2147483648 \<le> uint w \<and> uint w < 2147483648" by linarith
  then have "- (2 ^ 31) \<le> uint w" "uint w < 2 ^ 31" by simp_all
  then have "signed_take_bit 31 (uint w) = uint w" by (rule signed_take_bit_int_eq_self)
  then show ?thesis by (simp add: sint_uint)
qed

lemma sint_32_nonneg: "0 \<le> sint (w :: 32 word) \<Longrightarrow> uint w = sint w"
proof -
  assume nn: "0 \<le> sint w"
  have "uint w < 2147483648"
  proof (rule ccontr)
    assume "\<not> uint w < 2147483648"
    then have "(2 :: int) ^ 31 \<le> uint w" by simp
    then have "signed_take_bit 31 (uint w) \<le> uint w - 4294967296"
      using signed_take_bit_int_less_eq [of 31 "uint w"] by simp
    moreover have "uint w < 4294967296" using uint_lt2p [of w] by simp
    ultimately have "signed_take_bit 31 (uint w) < 0" by linarith
    then have "sint w < 0" by (simp only: sint_uint) simp
    with nn show False by simp
  qed
  then show ?thesis by (simp add: sint_32_low)
qed

lemma sint_32_range: "- 2147483648 \<le> sint (w :: 32 word) \<and> sint w < 2147483648"
  using sint_ge [of w] sint_lt [of w] by simp

lemma sint_add_32:
  "uint (b :: 32 word) < 2147483648 \<Longrightarrow> sint (b + x) = signed_take_bit 31 (uint b + sint x)"
proof -
  assume "uint b < 2147483648"
  then have "sint b = uint b" by (rule sint_32_low)
  moreover have "sint (b + x) = signed_take_bit (LENGTH(32) - 1) (sint b + sint x)"
    by (rule sint_word_ariths)
  ultimately show ?thesis by simp
qed

lemma seek_abs_sint:
  assumes "uint (seek_offs ctx) < 2147483648" and "uint (used_size ctx) < 2147483648"
  shows "sint (seek_abs ctx offset whence) = signed_take_bit 31 (seek_target ctx offset whence)"
proof (cases whence)
  case SSTM_SEEK_SET
  have "- (2 ^ 31) \<le> sint offset" "sint offset < 2 ^ 31"
    using sint_32_range [of offset] by simp_all
  then have "signed_take_bit 31 (sint offset) = sint offset"
    by (rule signed_take_bit_int_eq_self)
  with SSTM_SEEK_SET show ?thesis by (simp add: seek_abs_def seek_target_def)
next
  case SSTM_SEEK_CUR
  then show ?thesis
    using sint_add_32 [OF assms(1)] by (simp add: seek_abs_def seek_target_def)
next
  case SSTM_SEEK_END
  then show ?thesis
    using sint_add_32 [OF assms(2)] by (simp add: seek_abs_def seek_target_def)
qed

lemma seek_target_range:
  assumes "uint (seek_offs ctx) < 2147483648" and "uint (used_size ctx) < 2147483648"
  shows "- 2147483648 \<le> seek_target ctx offset whence \<and>
         seek_target ctx offset whence < 4294967296"
proof -
  have nn: "0 \<le> uint (seek_offs ctx)" "0 \<le> uint (used_size ctx)" by simp_all
  note rg = sint_32_range [of offset]
  show ?thesis
  proof (cases whence)
    case SSTM_SEEK_SET
    then have "seek_target ctx offset whence = sint offset"
      by (simp add: seek_target_def)
    with rg show ?thesis by linarith
  next
    case SSTM_SEEK_CUR
    then have "seek_target ctx offset whence = uint (seek_offs ctx) + sint offset"
      by (simp add: seek_target_def)
    with rg nn assms show ?thesis by linarith
  next
    case SSTM_SEEK_END
    then have "seek_target ctx offset whence = uint (used_size ctx) + sint offset"
      by (simp add: seek_target_def)
    with rg nn assms show ?thesis by linarith
  qed
qed

lemma seek_follows_target:
  assumes cur: "uint (seek_offs ctx) \<le> uint (used_size ctx)"
    and small: "uint (used_size ctx) < 2147483648"
  shows "sstm_seek ctx offset whence =
     (if seek_target ctx offset whence < 0 \<or> uint (used_size ctx) < seek_target ctx offset whence
      then Inr (SSTM_ERR_BAD_OFFS, ctx)
      else if seek_target ctx offset whence = uint (seek_offs ctx) then Inr (SSTM_OK, ctx)
      else Inr (SSTM_OK,
                ctx \<lparr> seek_offs := word_of_int (seek_target ctx offset whence),
                      stale_size := word_of_int (seek_target ctx offset whence),
                      fresh_size := word_of_int (uint (used_size ctx) - seek_target ctx offset whence) \<rparr>))"
proof -
  let ?T = "seek_target ctx offset whence"
  let ?a = "seek_abs ctx offset whence"
  from cur small have cs: "uint (seek_offs ctx) < 2147483648" by simp
  have sa: "sint ?a = signed_take_bit 31 ?T"
    using cs small by (rule seek_abs_sint)
  have lo: "- 2147483648 \<le> ?T" and hi: "?T < 4294967296"
    using seek_target_range [OF cs small, of offset whence] by simp_all
  show ?thesis
  proof (cases "?T < 2147483648")
    case False
    then have "(2 :: int) ^ 31 \<le> ?T" by simp
    then have "signed_take_bit 31 ?T \<le> ?T - 4294967296"
      using signed_take_bit_int_less_eq [of 31 ?T] by simp
    with hi sa have "sint ?a < 0" by linarith
    moreover from False small have "uint (used_size ctx) < ?T" by simp
    ultimately show ?thesis by (simp add: sstm_seek_unfold)
  next
    case True
    with lo have "- (2 ^ 31) \<le> ?T" "?T < 2 ^ 31" by simp_all
    then have "signed_take_bit 31 ?T = ?T" by (rule signed_take_bit_int_eq_self)
    with sa have st: "sint ?a = ?T" by simp
    show ?thesis
    proof (cases "?T < 0")
      case True
      with st show ?thesis by (simp add: sstm_seek_unfold)
    next
      case False
      with st have ua: "uint ?a = ?T" by (simp add: sint_32_nonneg)
      then have wa: "?a = word_of_int ?T" by (metis word_of_int_uint)
      have gt: "used_size ctx < ?a \<longleftrightarrow> uint (used_size ctx) < ?T"
        using ua by (simp add: word_less_def)
      have eq: "?a = seek_offs ctx \<longleftrightarrow> ?T = uint (seek_offs ctx)"
        using ua by (simp add: word_uint_eq_iff)
      have fr: "used_size ctx - ?a = word_of_int (uint (used_size ctx) - ?T)"
        using wa by simp
      show ?thesis
        using False st gt eq fr wa
        by (simp add: sstm_seek_unfold sought_def)
    qed
  qed
qed

subsection \<open>The copies stay inside the ring\<close>

lemma overlay_inside: "off \<le> i \<Longrightarrow> i < off + n \<Longrightarrow> overlay buf off n f i = f (i - off)"
  by (simp add: overlay_def)

lemma overlay_outside: "\<not> (off \<le> i \<and> i < off + n) \<Longrightarrow> overlay buf off n f i = buf i"
  unfolding overlay_def by (rule if_not_P)

lemma copy_or_zero_result:
  assumes "off + n \<le> alloc"
    and "case data of None \<Rightarrow> True | Some src \<Rightarrow> so + n \<le> length src"
  shows "copy_or_zero buf alloc off data so n =
           Inr (overlay buf off n (\<lambda>k. payload data (so + k)))"
proof (cases data)
  case None
  have "(\<lambda>i. if off \<le> i \<and> i < off + n then 0 else buf i) =
        overlay buf off n (\<lambda>k. payload None (so + k))"
    by (rule ext) (simp add: overlay_def payload_def)
  with None assms show ?thesis
    by (simp add: copy_or_zero_def ring_memset_def)
next
  case (Some src)
  with assms have len: "so + n \<le> length src" by simp
  then have l: "length (take n (drop so src)) = n" by simp
  have "(\<lambda>i. if off \<le> i \<and> i < off + n then take n (drop so src) ! (i - off) else buf i) =
        overlay buf off n (\<lambda>k. payload (Some src) (so + k))"
  proof
    fix i
    show "(if off \<le> i \<and> i < off + n then take n (drop so src) ! (i - off) else buf i) =
          overlay buf off n (\<lambda>k. payload (Some src) (so + k)) i"
    proof (cases "off \<le> i \<and> i < off + n")
      case True
      then have "i - off < n" by linarith
      with len have "take n (drop so src) ! (i - off) = src ! (so + (i - off))"
        by simp
      with True show ?thesis by (simp add: overlay_def payload_def)
    next
      case False
      show ?thesis by (simp only: overlay_def False if_False)
    qed
  qed
  with Some assms(1) len l show ?thesis
    by (simp add: copy_or_zero_def ring_memcpy_in_def)
qed

lemma alloc_ok_fits:
  assumes "alloc_ok ctx" and "unat (cap_size ctx) < 4294967288"
  shows "alloc_fits ctx"
  using assms alloc_covers [of "cap_size ctx"] by (simp add: alloc_ok_def alloc_fits_def)

lemma first_span_unat:
  assumes big: "unat (cap_size ctx) < 4294967295" and i: "unat idx \<le> unat (cap_size ctx)"
  shows "unat (cap_size ctx + 1 - idx) = unat (cap_size ctx) + 1 - unat idx"
proof -
  note m = small_cap_succ [OF big]
  have "idx \<le> cap_size ctx + 1"
    using i m by (simp add: word_le_nat_alt)
  then show ?thesis using m by (simp add: unat_sub)
qed

lemma write_copy_result:
  assumes big: "unat (cap_size ctx) < 4294967295"
    and fits: "alloc_fits ctx"
    and t: "unat (tail_idx ctx) \<le> unat (cap_size ctx)"
    and n: "unat sz \<le> unat (cap_size ctx)"
    and df: "data_fits data sz"
  shows "\<exists>buf. write_copy ctx data sz = Inr buf \<and>
           (\<forall>j < unat sz.
              buf ((unat (tail_idx ctx) + j) mod (unat (cap_size ctx) + 1)) = payload data j) \<and>
           (\<forall>i. (\<forall>j < unat sz. (unat (tail_idx ctx) + j) mod (unat (cap_size ctx) + 1) \<noteq> i) \<longrightarrow>
              buf i = ring_buff ctx i)"
proof -
  let ?m = "unat (cap_size ctx) + 1"
  let ?t = "unat (tail_idx ctx)"
  let ?n = "unat sz"
  from fits have al: "?m \<le> unat (alloc_size ctx)" by (simp add: alloc_fits_def)
  have first: "unat (cap_size ctx + 1 - tail_idx ctx) = ?m - ?t"
    using big t by (rule first_span_unat)
  show ?thesis
  proof (cases "cap_size ctx + 1 - tail_idx ctx \<ge> sz")
    case True
    then have le: "?n \<le> ?m - ?t"
      using first by (simp add: word_le_nat_alt)
    define buf where "buf = overlay (ring_buff ctx) ?t ?n (\<lambda>k. payload data (0 + k))"
    have "copy_or_zero (ring_buff ctx) (unat (alloc_size ctx)) ?t data 0 ?n = Inr buf"
      unfolding buf_def
    proof (rule copy_or_zero_result)
      show "?t + ?n \<le> unat (alloc_size ctx)" using le t al by linarith
      show "case data of None \<Rightarrow> True | Some src \<Rightarrow> 0 + ?n \<le> length src"
        using df by (simp add: data_fits_def split: option.splits)
    qed
    with True have wc: "write_copy ctx data sz = Inr buf"
      by (simp add: write_copy_def)
    have inside: "(?t + j) mod ?m = ?t + j" if "j < ?n" for j
      using that le t by (intro mod_less) linarith
    have a: "\<forall>j < ?n. buf ((?t + j) mod ?m) = payload data j"
    proof (intro allI impI)
      fix j assume j: "j < ?n"
      then have "buf (?t + j) = payload data (0 + (?t + j - ?t))"
        unfolding buf_def by (intro overlay_inside) linarith+
      then show "buf ((?t + j) mod ?m) = payload data j"
        using inside [OF j] by simp
    qed
    have b: "\<forall>i. (\<forall>j < ?n. (?t + j) mod ?m \<noteq> i) \<longrightarrow> buf i = ring_buff ctx i"
    proof (intro allI impI)
      fix i
      assume out: "\<forall>j < ?n. (?t + j) mod ?m \<noteq> i"
      have "\<not> (?t \<le> i \<and> i < ?t + ?n)"
      proof
        assume "?t \<le> i \<and> i < ?t + ?n"
        then have "i - ?t < ?n" "?t + (i - ?t) = i" by linarith+
        with out inside [of "i - ?t"] show False by auto
      qed
      then show "buf i = ring_buff ctx i"
        unfolding buf_def by (rule overlay_outside)
    qed
    from wc a b show ?thesis by blast
  next
    case False
    then have lt: "?m - ?t < ?n"
      using first by (simp add: word_le_nat_alt not_le)
    from False have "cap_size ctx + 1 - tail_idx ctx \<le> sz" by simp
    then have second: "unat (sz - (cap_size ctx + 1 - tail_idx ctx)) = ?n - (?m - ?t)"
      using first by (simp add: unat_sub)
    define f where "f = ?m - ?t"
    define s where "s = ?n - (?m - ?t)"
    define buf1 where "buf1 = overlay (ring_buff ctx) ?t f (\<lambda>k. payload data (0 + k))"
    define buf2 where "buf2 = overlay buf1 0 s (\<lambda>k. payload data (f + k))"
    have fs: "f + s = ?n" "f + ?t = ?m" "s < ?t" "0 < f"
      using lt n t by (simp_all add: f_def s_def)
    have c1: "copy_or_zero (ring_buff ctx) (unat (alloc_size ctx)) ?t data 0 f = Inr buf1"
      unfolding buf1_def
    proof (rule copy_or_zero_result)
      show "?t + f \<le> unat (alloc_size ctx)" using fs al by linarith
      show "case data of None \<Rightarrow> True | Some src \<Rightarrow> 0 + f \<le> length src"
        using df fs by (simp add: data_fits_def split: option.splits)
    qed
    have c2: "copy_or_zero buf1 (unat (alloc_size ctx)) 0 data f s = Inr buf2"
      unfolding buf2_def
    proof (rule copy_or_zero_result)
      show "0 + s \<le> unat (alloc_size ctx)" using fs t al by linarith
      show "case data of None \<Rightarrow> True | Some src \<Rightarrow> f + s \<le> length src"
        using df fs by (simp add: data_fits_def split: option.splits)
    qed
    from False c1 c2 have wc: "write_copy ctx data sz = Inr buf2"
      by (simp add: write_copy_def first second f_def s_def)
    have a: "\<forall>j < ?n. buf2 ((?t + j) mod ?m) = payload data j"
    proof (intro allI impI)
      fix j assume j: "j < ?n"
      show "buf2 ((?t + j) mod ?m) = payload data j"
      proof (cases "j < f")
        case True
        then have pos: "(?t + j) mod ?m = ?t + j" using fs by (intro mod_less) linarith
        have "\<not> (0 \<le> ?t + j \<and> ?t + j < 0 + s)" using fs by linarith
        then have "buf2 (?t + j) = buf1 (?t + j)"
          unfolding buf2_def by (rule overlay_outside)
        also have "buf1 (?t + j) = payload data (0 + (?t + j - ?t))"
          unfolding buf1_def using True by (intro overlay_inside) linarith+
        also have "\<dots> = payload data j" by simp
        finally show ?thesis by (simp only: pos)
      next
        case False
        then have ge: "?m \<le> ?t + j" using fs by linarith
        have "(?t + j) mod ?m = (?t + j - ?m) mod ?m" using ge by (rule le_mod_geq)
        also have "\<dots> = ?t + j - ?m" using j n t by (intro mod_less) linarith
        finally have pos: "(?t + j) mod ?m = ?t + j - ?m" .
        have "buf2 (?t + j - ?m) = payload data (f + (?t + j - ?m - 0))"
          unfolding buf2_def using j False ge fs by (intro overlay_inside) linarith+
        moreover have "f + (?t + j - ?m - 0) = j" using False ge fs by linarith
        ultimately show ?thesis by (simp only: pos)
      qed
    qed
    have b: "\<forall>i. (\<forall>j < ?n. (?t + j) mod ?m \<noteq> i) \<longrightarrow> buf2 i = ring_buff ctx i"
    proof (intro allI impI)
      fix i
      assume out: "\<forall>j < ?n. (?t + j) mod ?m \<noteq> i"
      have n1: "\<not> (0 \<le> i \<and> i < 0 + s)"
      proof
        assume i: "0 \<le> i \<and> i < 0 + s"
        have jn: "f + i < ?n" using i fs by linarith
        have ge: "?m \<le> ?t + (f + i)" using fs by linarith
        have "(?t + (f + i)) mod ?m = (?t + (f + i) - ?m) mod ?m" using ge by (rule le_mod_geq)
        also have "\<dots> = ?t + (f + i) - ?m" using jn n t by (intro mod_less) linarith
        also have "\<dots> = i" using fs by linarith
        finally show False using out jn by blast
      qed
      have n2: "\<not> (?t \<le> i \<and> i < ?t + f)"
      proof
        assume i: "?t \<le> i \<and> i < ?t + f"
        have jn: "i - ?t < ?n" using i fs by linarith
        have "(?t + (i - ?t)) mod ?m = ?t + (i - ?t)" using i fs by (intro mod_less) linarith
        also have "\<dots> = i" using i by linarith
        finally show False using out jn by blast
      qed
      from n1 have "buf2 i = buf1 i" unfolding buf2_def by (rule overlay_outside)
      also from n2 have "buf1 i = ring_buff ctx i" unfolding buf1_def by (rule overlay_outside)
      finally show "buf2 i = ring_buff ctx i" .
    qed
    from wc a b show ?thesis by blast
  qed
qed

subsection \<open>A write that fits succeeds\<close>

lemma write_stores:
  assumes ok: "counters_ok ctx" and fits: "alloc_fits ctx"
    and big: "unat (cap_size ctx) < 4294967295"
    and nz: "sz \<noteq> 0" and le: "sz \<le> free_size ctx" and df: "data_fits data sz"
  shows "\<exists>buf. sstm_write ctx data sz = Inr (SSTM_OK, wrote ctx buf (write_tail ctx sz) sz) \<and>
           (\<forall>j < unat sz.
              buf ((unat (tail_idx ctx) + j) mod (unat (cap_size ctx) + 1)) = payload data j) \<and>
           (\<forall>i. (\<forall>j < unat sz. (unat (tail_idx ctx) + j) mod (unat (cap_size ctx) + 1) \<noteq> i) \<longrightarrow>
              buf i = ring_buff ctx i)"
proof -
  from ok have t: "unat (tail_idx ctx) \<le> unat (cap_size ctx)"
    and f: "unat (free_size ctx) \<le> unat (cap_size ctx)"
    by (simp_all add: counters_ok_def)
  from le have "unat sz \<le> unat (free_size ctx)" by (simp add: word_le_nat_alt)
  with f have n: "unat sz \<le> unat (cap_size ctx)" by linarith
  from write_copy_result [OF big fits t n df] obtain buf where
    wc: "write_copy ctx data sz = Inr buf"
    and a: "\<forall>j < unat sz.
              buf ((unat (tail_idx ctx) + j) mod (unat (cap_size ctx) + 1)) = payload data j"
    and b: "\<forall>i. (\<forall>j < unat sz. (unat (tail_idx ctx) + j) mod (unat (cap_size ctx) + 1) \<noteq> i) \<longrightarrow>
              buf i = ring_buff ctx i"
    by blast
  from le have nlt: "\<not> free_size ctx < sz" by simp
  have c1: "cap_size ctx + 1 \<noteq> 0" using small_cap_succ(1) [OF big] .
  have "sstm_write ctx data sz = Inr (SSTM_OK, wrote ctx buf (write_tail ctx sz) sz)"
  proof (cases "cap_size ctx + 1 - tail_idx ctx \<ge> sz")
    case True
    from sstm_write_single [OF nz nlt True, of data] wc c1 show ?thesis by simp
  next
    case False
    from sstm_write_split [OF nz nlt False, of data] wc show ?thesis by simp
  qed
  with a b show ?thesis by blast
qed

subsection \<open>A read of fresh bytes succeeds\<close>

lemma read_copy_null: "read_copy ctx False sz = Inr []"
  by (simp add: read_copy_def)

lemma ring_memcpy_out_result:
  "off + n \<le> alloc \<Longrightarrow> ring_memcpy_out buf alloc off n = Inr (map buf [off..<off + n])"
  by (simp add: ring_memcpy_out_def)

lemma read_copy_result:
  assumes big: "unat (cap_size ctx) < 4294967295"
    and fits: "alloc_fits ctx"
    and n: "unat sz \<le> unat (cap_size ctx)"
  shows "read_copy ctx True sz =
           Inr (map (\<lambda>j. ring_buff ctx
                      ((unat ((head_idx ctx + seek_offs ctx) mod (cap_size ctx + 1)) + j)
                         mod (unat (cap_size ctx) + 1)))
                  [0..<unat sz])"
proof -
  let ?m = "unat (cap_size ctx) + 1"
  let ?nh = "(head_idx ctx + seek_offs ctx) mod (cap_size ctx + 1)"
  let ?h = "unat ?nh"
  let ?n = "unat sz"
  let ?buf = "ring_buff ctx"
  let ?want = "map (\<lambda>j. ?buf ((?h + j) mod ?m)) [0..<?n]"
  from fits have al: "?m \<le> unat (alloc_size ctx)" by (simp add: alloc_fits_def)
  have c1: "cap_size ctx + 1 \<noteq> 0" using small_cap_succ(1) [OF big] .
  then have h: "?h \<le> unat (cap_size ctx)" by (rule word_mod_le_cap)
  have first: "unat (cap_size ctx + 1 - ?nh) = ?m - ?h"
    using big h by (rule first_span_unat)
  show ?thesis
  proof (cases "cap_size ctx + 1 - ?nh \<ge> sz")
    case True
    then have le: "?n \<le> ?m - ?h"
      using first by (simp add: word_le_nat_alt)
    then have "?h + ?n \<le> unat (alloc_size ctx)" using h al by linarith
    then have cp: "ring_memcpy_out ?buf (unat (alloc_size ctx)) ?h ?n = Inr (map ?buf [?h..<?h + ?n])"
      by (rule ring_memcpy_out_result)
    have "map ?buf [?h..<?h + ?n] = ?want"
    proof (rule nth_equalityI)
      show "length (map ?buf [?h..<?h + ?n]) = length ?want" by simp
    next
      fix j assume "j < length (map ?buf [?h..<?h + ?n])"
      then have j: "j < ?n" by simp
      then have "(?h + j) mod ?m = ?h + j" using le h by (intro mod_less) linarith
      with j show "map ?buf [?h..<?h + ?n] ! j = ?want ! j" by simp
    qed
    with True cp show ?thesis by (simp add: read_copy_def Let_def)
  next
    case False
    then have lt: "?m - ?h < ?n"
      using first by (simp add: word_le_nat_alt not_le)
    from False have "cap_size ctx + 1 - ?nh \<le> sz" by simp
    then have second: "unat (sz - (cap_size ctx + 1 - ?nh)) = ?n - (?m - ?h)"
      using first by (simp add: unat_sub)
    define f where "f = ?m - ?h"
    define s where "s = ?n - (?m - ?h)"
    have fs: "f + s = ?n" "f + ?h = ?m" "s < ?h" "0 < f"
      using lt n h by (simp_all add: f_def s_def)
    have "?h + f \<le> unat (alloc_size ctx)" using fs al by linarith
    then have c1: "ring_memcpy_out ?buf (unat (alloc_size ctx)) ?h f = Inr (map ?buf [?h..<?h + f])"
      by (rule ring_memcpy_out_result)
    have "0 + s \<le> unat (alloc_size ctx)" using fs h al by linarith
    then have c2: "ring_memcpy_out ?buf (unat (alloc_size ctx)) 0 s = Inr (map ?buf [0..<0 + s])"
      by (rule ring_memcpy_out_result)
    have "map ?buf [?h..<?h + f] @ map ?buf [0..<0 + s] = ?want"
    proof (rule nth_equalityI)
      show "length (map ?buf [?h..<?h + f] @ map ?buf [0..<0 + s]) = length ?want"
        using fs by simp
    next
      fix j assume "j < length (map ?buf [?h..<?h + f] @ map ?buf [0..<0 + s])"
      then have j: "j < ?n" using fs by simp
      show "(map ?buf [?h..<?h + f] @ map ?buf [0..<0 + s]) ! j = ?want ! j"
      proof (cases "j < f")
        case True
        then have "(?h + j) mod ?m = ?h + j" using fs by (intro mod_less) linarith
        with True j show ?thesis by (simp add: nth_append)
      next
        case False
        then have ge: "?m \<le> ?h + j" using fs by linarith
        have "(?h + j) mod ?m = (?h + j - ?m) mod ?m" using ge by (rule le_mod_geq)
        also have "\<dots> = ?h + j - ?m" using j n h by (intro mod_less) linarith
        also have "\<dots> = j - f" using fs by linarith
        finally have pos: "(?h + j) mod ?m = j - f" .
        have "j - f < s" using j False fs by linarith
        with False j pos show ?thesis by (simp add: nth_append)
      qed
    qed
    with False c1 c2 show ?thesis
      by (simp add: read_copy_def Let_def first second f_def s_def)
  qed
qed

lemma read_copy_succeeds:
  assumes big: "unat (cap_size ctx) < 4294967295"
    and fits: "alloc_fits ctx"
    and n: "unat sz \<le> unat (cap_size ctx)"
  shows "\<exists>out. read_copy ctx data sz = Inr out \<and> length out = (if data then unat sz else 0)"
proof (cases data)
  case True
  with read_copy_result [OF big fits n] show ?thesis by simp
next
  case False
  then show ?thesis by (simp add: read_copy_null)
qed

lemma advanced_stale_nonzero:
  assumes ok: "counters_ok ctx" and nz: "sz \<noteq> 0" and le: "sz \<le> fresh_size ctx"
  shows "stale_size (advanced ctx sz) \<noteq> 0"
proof -
  from ok have u: "unat (used_size ctx) = unat (stale_size ctx) + unat (fresh_size ctx)"
    by (simp add: counters_ok_def)
  from le have "unat sz \<le> unat (fresh_size ctx)" by (simp add: word_le_nat_alt)
  then have "unat (stale_size ctx) + unat sz < 4294967296"
    using u unat_lt_32 [of "used_size ctx"] by linarith
  then have "unat (stale_size ctx + sz) = unat (stale_size ctx) + unat sz"
    by (rule unat_add_32)
  moreover from nz have "0 < unat sz" by (simp add: unat_gt_0)
  ultimately have "unat (stale_size ctx + sz) \<noteq> 0" by linarith
  then show ?thesis by (simp add: advanced_def unat_0_iff)
qed

lemma read_delivers:
  assumes ok: "counters_ok ctx" and fits: "alloc_fits ctx"
    and big: "unat (cap_size ctx) < 4294967295"
    and nz: "sz \<noteq> 0" and le: "sz \<le> fresh_size ctx"
  shows "\<exists>out. read_copy ctx data sz = Inr out \<and>
           length out = (if data then unat sz else 0) \<and>
           sstm_read ctx data sz False = Inr (SSTM_OK, out, advanced ctx sz) \<and>
           sstm_read ctx data sz True = Inr (SSTM_OK, out, cleaned (advanced ctx sz))"
proof -
  from ok have "unat (fresh_size ctx) \<le> unat (cap_size ctx)"
    by (simp add: counters_ok_def)
  moreover from le have "unat sz \<le> unat (fresh_size ctx)" by (simp add: word_le_nat_alt)
  ultimately have n: "unat sz \<le> unat (cap_size ctx)" by linarith
  from read_copy_succeeds [OF big fits n, of data] obtain out where
    rc: "read_copy ctx data sz = Inr out" and len: "length out = (if data then unat sz else 0)"
    by blast
  from le have nlt: "\<not> fresh_size ctx < sz" by simp
  have c1: "cap_size ctx + 1 \<noteq> 0" using small_cap_succ(1) [OF big] .
  note unf = sstm_read_unfold [OF nz nlt c1, of data]
  have plain: "sstm_read ctx data sz False = Inr (SSTM_OK, out, advanced ctx sz)"
    using unf [of False] rc by simp
  have "stale_size (advanced ctx sz) \<noteq> 0"
    using ok nz le by (rule advanced_stale_nonzero)
  moreover have "cap_size (advanced ctx sz) + 1 \<noteq> 0"
    using c1 by (simp add: advanced_def)
  ultimately have "sstm_clean (advanced ctx sz) = Inr (SSTM_OK, cleaned (advanced ctx sz))"
    by (rule sstm_clean_nonzero)
  then have "sstm_read ctx data sz True = Inr (SSTM_OK, out, cleaned (advanced ctx sz))"
    using unf [of True] rc by simp
  with rc len plain show ?thesis by blast
qed

subsection \<open>The fields after a write and after a reclaiming read\<close>

lemma reachable_fits:
  assumes "reachable ctx" and "unat (cap_size ctx) < 4294967288"
  shows "counters_ok ctx" and "alloc_fits ctx" and "unat (cap_size ctx) < 4294967295"
proof -
  from assms(1) show "counters_ok ctx" by (rule reachable_counters_ok)
  from assms(1) have "alloc_ok ctx" by (rule reachable_alloc_ok)
  then show "alloc_fits ctx" using assms(2) by (rule alloc_ok_fits)
  from assms(2) show "unat (cap_size ctx) < 4294967295" by simp
qed

lemma uint_less_unat: "uint (w :: 32 word) < numeral k \<Longrightarrow> unat w < numeral k"
proof -
  assume "uint w < numeral k"
  then have "int (unat w) < int (numeral k)" by simp
  then show ?thesis by (simp only: of_nat_less_iff)
qed

lemma int_unat_sum: "unat a = unat b + unat c \<Longrightarrow> uint a = uint b + uint c"
proof -
  assume "unat a = unat b + unat c"
  then have "int (unat a) = int (unat b + unat c)" by (rule arg_cong)
  then show ?thesis by simp
qed

lemma wrote_sizes:
  assumes ok: "counters_ok ctx" and le: "sz \<le> free_size ctx"
  shows "uint (used_size ctx + sz) = uint (used_size ctx) + uint sz"
    and "uint (fresh_size ctx + sz) = uint (fresh_size ctx) + uint sz"
    and "uint (free_size ctx - sz) = uint (free_size ctx) - uint sz"
proof -
  from ok have u: "unat (used_size ctx) = unat (stale_size ctx) + unat (fresh_size ctx)"
    and f: "unat (free_size ctx) + unat (used_size ctx) = unat (cap_size ctx)"
    by (simp_all add: counters_ok_def)
  from le have n: "unat sz \<le> unat (free_size ctx)" by (simp add: word_le_nat_alt)
  have "unat (used_size ctx) + unat sz < 4294967296"
    using f n unat_lt_32 [of "cap_size ctx"] by linarith
  then have "unat (used_size ctx + sz) = unat (used_size ctx) + unat sz"
    by (rule unat_add_32)
  then show "uint (used_size ctx + sz) = uint (used_size ctx) + uint sz"
    by (rule int_unat_sum)
  have "unat (fresh_size ctx) + unat sz < 4294967296"
    using u f n unat_lt_32 [of "cap_size ctx"] by linarith
  then have "unat (fresh_size ctx + sz) = unat (fresh_size ctx) + unat sz"
    by (rule unat_add_32)
  then show "uint (fresh_size ctx + sz) = uint (fresh_size ctx) + uint sz"
    by (rule int_unat_sum)
  from le have "uint sz \<le> uint (free_size ctx)" by (simp add: word_le_def)
  then show "uint (free_size ctx - sz) = uint (free_size ctx) - uint sz"
    by (simp add: uint_sub_lem)
qed

lemma write_tail_uint:
  assumes big: "unat (cap_size ctx) < 4294967295"
    and t: "unat (tail_idx ctx) \<le> unat (cap_size ctx)"
    and n: "unat sz \<le> unat (cap_size ctx)"
  shows "uint (write_tail ctx sz) = (uint (tail_idx ctx) + uint sz) mod (uint (cap_size ctx) + 1)"
proof -
  have "int (unat (write_tail ctx sz)) =
        int ((unat (tail_idx ctx) + unat sz) mod (unat (cap_size ctx) + 1))"
    using write_tail_unat [OF big t n] by (rule arg_cong)
  then show ?thesis by (simp add: zmod_int add.commute)
qed

lemma small_cap_fits:
  assumes "reachable ctx" and "uint (cap_size ctx) < 2 ^ 31"
  shows "counters_ok ctx" and "alloc_fits ctx" and "unat (cap_size ctx) < 4294967295"
    and "unat (cap_size ctx) < 2147483648"
proof -
  from assms(2) have "uint (cap_size ctx) < 2147483648" by simp
  then show small: "unat (cap_size ctx) < 2147483648" by (rule uint_less_unat)
  then have "unat (cap_size ctx) < 4294967288" by simp
  with assms(1) show "counters_ok ctx" and "alloc_fits ctx" and "unat (cap_size ctx) < 4294967295"
    by (rule reachable_fits)+
qed

lemma swept_fields:
  assumes ok: "counters_ok ctx" and small: "unat (cap_size ctx) < 2147483648"
    and le: "sz \<le> fresh_size ctx"
  shows "uint (head_idx (cleaned (advanced ctx sz))) =
           (uint (head_idx ctx) + (uint (stale_size ctx) + uint sz)) mod (uint (cap_size ctx) + 1)"
    and "uint (free_size (cleaned (advanced ctx sz))) =
           uint (free_size ctx) + (uint (stale_size ctx) + uint sz)"
proof -
  from ok have u: "unat (used_size ctx) = unat (stale_size ctx) + unat (fresh_size ctx)"
    and f: "unat (free_size ctx) + unat (used_size ctx) = unat (cap_size ctx)"
    and h: "unat (head_idx ctx) \<le> unat (cap_size ctx)"
    by (simp_all add: counters_ok_def)
  from le have n: "unat sz \<le> unat (fresh_size ctx)" by (simp add: word_le_nat_alt)
  have big: "unat (cap_size ctx) < 4294967295" using small by simp
  note m = small_cap_succ [OF big]
  have "unat (stale_size ctx) + unat sz < 4294967296"
    using u f n small by linarith
  then have s: "unat (stale_size ctx + sz) = unat (stale_size ctx) + unat sz"
    by (rule unat_add_32)
  have "unat (head_idx ctx) + unat (stale_size ctx + sz) < 4294967296"
    using s u f n h small by linarith
  then have "unat (head_idx ctx + (stale_size ctx + sz)) = unat (head_idx ctx) + unat (stale_size ctx + sz)"
    by (rule unat_add_32)
  then have "unat ((head_idx ctx + (stale_size ctx + sz)) mod (cap_size ctx + 1)) =
      (unat (head_idx ctx) + (unat (stale_size ctx) + unat sz)) mod (unat (cap_size ctx) + 1)"
    using s m by (simp add: unat_mod)
  then have "int (unat ((head_idx ctx + (stale_size ctx + sz)) mod (cap_size ctx + 1))) =
      int ((unat (head_idx ctx) + (unat (stale_size ctx) + unat sz)) mod (unat (cap_size ctx) + 1))"
    by (rule arg_cong)
  then show "uint (head_idx (cleaned (advanced ctx sz))) =
           (uint (head_idx ctx) + (uint (stale_size ctx) + uint sz)) mod (uint (cap_size ctx) + 1)"
    by (simp add: cleaned_def advanced_def zmod_int add.commute)
  have "unat (free_size ctx) + unat (stale_size ctx + sz) < 4294967296"
    using s u f n small by linarith
  then have "unat (free_size ctx + (stale_size ctx + sz)) = unat (free_size ctx) + unat (stale_size ctx + sz)"
    by (rule unat_add_32)
  then have "int (unat (free_size ctx + (stale_size ctx + sz))) =
      int (unat (free_size ctx) + (unat (stale_size ctx) + unat sz))"
    using s by simp
  then show "uint (free_size (cleaned (advanced ctx sz))) =
           uint (free_size ctx) + (uint (stale_size ctx) + uint sz)"
    by (simp add: cleaned_def advanced_def)
qed

subsection \<open>Reading twice from the same place\<close>

lemma read_copy_same:
  assumes "head_idx a = head_idx b" and "seek_offs a = seek_offs b"
    and "cap_size a = cap_size b" and "alloc_size a = alloc_size b"
    and "ring_buff a = ring_buff b"
  shows "read_copy a data sz = read_copy b data sz"
  unfolding read_copy_def assms by (rule refl)

lemma empty_window:
  assumes ok: "counters_ok ctx" and e: "used_size ctx = 0"
  shows "stale_size ctx = 0" and "fresh_size ctx = 0" and "seek_offs ctx = 0"
proof -
  from ok e have "unat (stale_size ctx) + unat (fresh_size ctx) = 0"
    by (simp add: counters_ok_def)
  then have z: "unat (stale_size ctx) = 0" "unat (fresh_size ctx) = 0" by simp_all
  from z(1) show s: "stale_size ctx = 0" by (simp only: unat_0_iff)
  from z(2) show "fresh_size ctx = 0" by (simp only: unat_0_iff)
  from ok s show "seek_offs ctx = 0" by (simp add: counters_ok_def)
qed

lemma rewind_delivers_again:
  assumes ok: "counters_ok ctx" and fits: "alloc_fits ctx"
    and big: "unat (cap_size ctx) < 4294967295"
    and e: "used_size ctx = 0" and le: "k \<le> free_size ctx" and df: "data_fits data k"
  shows "\<exists>out. rewind_twice ctx data k cleanup =
                 Inr ([SSTM_OK, SSTM_OK, SSTM_OK, SSTM_OK], out, out) \<and>
               length out = unat k"
proof (cases "k = 0")
  case True
  note z = empty_window [OF ok e]
  have "sstm_seek ctx 0 SSTM_SEEK_SET = Inr (SSTM_OK, ctx)"
    using z e by (simp add: sstm_seek_unfold seek_abs_def)
  with True show ?thesis
    by (simp add: rewind_twice_def sstm_write_zero sstm_read_zero)
next
  case nz: False
  note z = empty_window [OF ok e]
  from write_stores [OF ok fits big nz le df] obtain buf where
    w: "sstm_write ctx data k = Inr (SSTM_OK, wrote ctx buf (write_tail ctx k) k)"
    by blast
  define c1 where "c1 = wrote ctx buf (write_tail ctx k) k"
  have tl: "unat (write_tail ctx k) \<le> unat (cap_size ctx)"
    using ok le small_cap_succ(1) [OF big] by (intro write_tail_le_cap) simp_all
  have ok1: "counters_ok c1"
    unfolding c1_def using ok le tl by (rule wrote_counters_ok)
  have same1: "cap_size c1 = cap_size ctx" "alloc_size c1 = alloc_size ctx"
    "fresh_size c1 = k" "seek_offs c1 = 0" "used_size c1 = k"
    using z e by (simp_all add: c1_def wrote_def)
  have fits1: "alloc_fits c1" using fits same1 by (simp add: alloc_fits_def)
  have big1: "unat (cap_size c1) < 4294967295" using big same1 by simp
  have le1: "k \<le> fresh_size c1" using same1 by simp
  from read_delivers [OF ok1 fits1 big1 nz le1, of True] obtain out where
    rc1: "read_copy c1 True k = Inr out" and len: "length out = unat k"
    and r1: "sstm_read c1 True k False = Inr (SSTM_OK, out, advanced c1 k)"
    by auto
  define c2 where "c2 = advanced c1 k"
  have ok2: "counters_ok c2"
    unfolding c2_def using ok1 le1 by (rule advanced_counters_ok)
  have same2: "seek_offs c2 = k" "used_size c2 = k"
    using same1 by (simp_all add: c2_def advanced_def)
  have "seek_abs c2 0 SSTM_SEEK_SET = 0" by (simp add: seek_abs_def)
  then have sk: "sstm_seek c2 0 SSTM_SEEK_SET = Inr (SSTM_OK, sought c2 0)"
    using same2 nz by (simp add: sstm_seek_unfold)
  define c3 where "c3 = sought c2 0"
  have ok3: "counters_ok c3"
    unfolding c3_def using ok2 by (rule sought_counters_ok) simp
  have same3: "cap_size c3 = cap_size c1" "alloc_size c3 = alloc_size c1"
    "head_idx c3 = head_idx c1" "seek_offs c3 = seek_offs c1" "ring_buff c3 = ring_buff c1"
    "fresh_size c3 = k"
    using same1 same2 by (simp_all add: c3_def sought_def c2_def advanced_def)
  have fits3: "alloc_fits c3" using fits1 same3 by (simp add: alloc_fits_def)
  have big3: "unat (cap_size c3) < 4294967295" using big1 same3 by simp
  have le3: "k \<le> fresh_size c3" using same3 by simp
  have rc3: "read_copy c3 True k = Inr out"
    using read_copy_same [of c3 c1 True k] same3 rc1 by simp
  from read_delivers [OF ok3 fits3 big3 nz le3, of True] rc3
  have r3: "sstm_read c3 True k False = Inr (SSTM_OK, out, advanced c3 k)"
    and r3': "sstm_read c3 True k True = Inr (SSTM_OK, out, cleaned (advanced c3 k))"
    by auto
  have "rewind_twice ctx data k cleanup = Inr ([SSTM_OK, SSTM_OK, SSTM_OK, SSTM_OK], out, out)"
  proof (cases cleanup)
    case True
    with w r1 sk r3' show ?thesis
      by (simp add: rewind_twice_def c1_def c2_def c3_def)
  next
    case False
    with w r1 sk r3 show ?thesis
      by (simp add: rewind_twice_def c1_def c2_def c3_def)
  qed
  with len show ?thesis by blast
qed

subsection \<open>The resident bytes after a write, and the bytes that a read delivers\<close>

lemma length_resident: "length (resident ctx) = unat (used_size ctx)"
  by (simp add: resident_def)

lemma mod_shift_distinct:
  fixes a d m :: nat
  assumes "0 < d" and "d < m"
  shows "(a + d) mod m \<noteq> a mod m"
proof
  assume "(a + d) mod m = a mod m"
  moreover have "a \<le> a + d" by simp
  ultimately have "m dvd (a + d) - a" by (simp add: mod_eq_dvd_iff_nat)
  then have "m dvd d" by simp
  with assms show False using nat_dvd_not_less by blast
qed

lemma resident_wrote:
  assumes ok: "counters_ok ctx" and d: "dist_ok ctx" and le: "sz \<le> free_size ctx"
    and a: "\<forall>j < unat sz.
              buf ((unat (tail_idx ctx) + j) mod (unat (cap_size ctx) + 1)) = payload data j"
    and b: "\<forall>i. (\<forall>j < unat sz. (unat (tail_idx ctx) + j) mod (unat (cap_size ctx) + 1) \<noteq> i) \<longrightarrow>
              buf i = ring_buff ctx i"
  shows "resident (wrote ctx buf t sz) = resident ctx @ map (payload data) [0..<unat sz]"
proof -
  let ?m = "unat (cap_size ctx) + 1"
  let ?h = "unat (head_idx ctx)"
  let ?u = "unat (used_size ctx)"
  let ?n = "unat sz"
  from ok have f: "unat (free_size ctx) + ?u = unat (cap_size ctx)"
    by (simp add: counters_ok_def)
  from le have n: "?n \<le> unat (free_size ctx)" by (simp add: word_le_nat_alt)
  have "?u + ?n < 4294967296"
    using f n unat_lt_32 [of "cap_size ctx"] by linarith
  then have u': "unat (used_size ctx + sz) = ?u + ?n" by (rule unat_add_32)
  from d have tl: "(?h + ?u) mod ?m = unat (tail_idx ctx)" by (simp add: dist_ok_def)
  have at: "ring_at (wrote ctx buf t sz) i = buf ((?h + i) mod ?m)" for i
    by (simp add: ring_at_def wrote_def)
  have tj: "(unat (tail_idx ctx) + j) mod ?m = (?h + (?u + j)) mod ?m" for j
  proof -
    have "((?h + ?u) mod ?m + j) mod ?m = (?h + ?u + j) mod ?m"
      by (rule mod_add_left_eq)
    with tl show ?thesis by (simp add: add.assoc)
  qed
  show ?thesis
  proof (rule nth_equalityI)
    show "length (resident (wrote ctx buf t sz)) = length (resident ctx @ map (payload data) [0..<?n])"
      using u' by (simp add: resident_def wrote_def)
  next
    fix i assume "i < length (resident (wrote ctx buf t sz))"
    then have i: "i < ?u + ?n" using u' by (simp add: resident_def wrote_def)
    then have lhs: "resident (wrote ctx buf t sz) ! i = buf ((?h + i) mod ?m)"
      using u' at by (simp add: resident_def wrote_def)
    show "resident (wrote ctx buf t sz) ! i = (resident ctx @ map (payload data) [0..<?n]) ! i"
    proof (cases "i < ?u")
      case True
      have "\<forall>j < ?n. (unat (tail_idx ctx) + j) mod ?m \<noteq> (?h + i) mod ?m"
      proof (intro allI impI)
        fix j assume j: "j < ?n"
        have "0 < ?u + j - i" "?u + j - i < ?m" using True j f n by linarith+
        then have "(?h + i + (?u + j - i)) mod ?m \<noteq> (?h + i) mod ?m"
          by (rule mod_shift_distinct)
        moreover have "?h + i + (?u + j - i) = ?h + (?u + j)" using True by linarith
        ultimately show "(unat (tail_idx ctx) + j) mod ?m \<noteq> (?h + i) mod ?m"
          using tj [of j] by simp
      qed
      with b have "buf ((?h + i) mod ?m) = ring_buff ctx ((?h + i) mod ?m)" by blast
      with True lhs show ?thesis
        by (simp add: nth_append resident_def ring_at_def)
    next
      case False
      then have j: "i - ?u < ?n" "?u + (i - ?u) = i" using i by linarith+
      with a have "buf ((unat (tail_idx ctx) + (i - ?u)) mod ?m) = payload data (i - ?u)"
        by blast
      then have "buf ((?h + i) mod ?m) = payload data (i - ?u)"
        using tj [of "i - ?u"] j by simp
      with False j lhs show ?thesis
        by (simp add: nth_append resident_def)
    qed
  qed
qed

lemma fresh_read:
  assumes ok: "counters_ok ctx" and fits: "alloc_fits ctx"
    and small: "unat (cap_size ctx) < 2147483648" and le: "sz \<le> fresh_size ctx"
  shows "read_copy ctx True sz = Inr (take (unat sz) (fresh_bytes ctx))"
proof -
  let ?m = "unat (cap_size ctx) + 1"
  let ?h = "unat (head_idx ctx)"
  let ?s = "unat (stale_size ctx)"
  let ?n = "unat sz"
  from ok have u: "unat (used_size ctx) = ?s + unat (fresh_size ctx)"
    and f: "unat (free_size ctx) + unat (used_size ctx) = unat (cap_size ctx)"
    and sk: "seek_offs ctx = stale_size ctx"
    and h: "?h \<le> unat (cap_size ctx)"
    by (simp_all add: counters_ok_def)
  from le have n: "?n \<le> unat (fresh_size ctx)" by (simp add: word_le_nat_alt)
  have big: "unat (cap_size ctx) < 4294967295" using small by simp
  note m = small_cap_succ [OF big]
  have ncap: "?n \<le> unat (cap_size ctx)" using n u f by linarith
  have "?h + ?s < 4294967296" using h u f small by linarith
  then have "unat (head_idx ctx + stale_size ctx) = ?h + ?s" by (rule unat_add_32)
  then have nh: "unat ((head_idx ctx + seek_offs ctx) mod (cap_size ctx + 1)) = (?h + ?s) mod ?m"
    using m sk by (simp add: unat_mod)
  have "take ?n (fresh_bytes ctx) =
        map (\<lambda>j. ring_buff ctx
               ((unat ((head_idx ctx + seek_offs ctx) mod (cap_size ctx + 1)) + j) mod ?m))
          [0..<?n]"
  proof (rule nth_equalityI)
    show "length (take ?n (fresh_bytes ctx)) =
          length (map (\<lambda>j. ring_buff ctx
               ((unat ((head_idx ctx + seek_offs ctx) mod (cap_size ctx + 1)) + j) mod ?m))
          [0..<?n])"
      using u n by (simp add: fresh_bytes_def resident_def)
  next
    fix j assume "j < length (take ?n (fresh_bytes ctx))"
    then have j: "j < ?n" by simp
    then have "take ?n (fresh_bytes ctx) ! j = ring_at ctx (?s + j)"
      using u n by (simp add: fresh_bytes_def resident_def)
    also have "\<dots> = ring_buff ctx ((?h + ?s + j) mod ?m)"
      by (simp add: ring_at_def add.assoc)
    also have "(?h + ?s + j) mod ?m = ((?h + ?s) mod ?m + j) mod ?m"
      by (simp add: mod_add_left_eq)
    finally show "take ?n (fresh_bytes ctx) ! j =
        map (\<lambda>j. ring_buff ctx
               ((unat ((head_idx ctx + seek_offs ctx) mod (cap_size ctx + 1)) + j) mod ?m))
          [0..<?n] ! j"
      using j nh by simp
  qed
  with read_copy_result [OF big fits ncap] show ?thesis by simp
qed

lemma round_trip_delivers:
  assumes ok: "counters_ok ctx" and d: "dist_ok ctx" and fits: "alloc_fits ctx"
    and small: "unat (cap_size ctx) < 2147483648"
    and len: "length bytes \<le> unat (free_size ctx)"
  shows "round_trip ctx bytes =
           Inr (SSTM_OK, SSTM_OK, take (length bytes) (fresh_bytes ctx @ bytes),
                \<lparr> stat_cap_size = cap_size ctx,
                  stat_used_size = used_size ctx + of_nat (length bytes),
                  stat_stale_size = stale_size ctx + of_nat (length bytes),
                  stat_fresh_size = fresh_size ctx,
                  stat_free_size = free_size ctx - of_nat (length bytes),
                  stat_seek_offs = seek_offs ctx + of_nat (length bytes) \<rparr>)"
    and "uint (stale_size ctx + of_nat (length bytes)) = uint (stale_size ctx) + int (length bytes)"
proof -
  define sz :: sstm_size_t where "sz = of_nat (length bytes)"
  have n: "unat sz = length bytes"
    unfolding sz_def using len by (rule le_unat_uoi)
  have le: "sz \<le> free_size ctx" using n len by (simp add: word_le_nat_alt)
  have big: "unat (cap_size ctx) < 4294967295" using small by simp
  from ok have u: "unat (used_size ctx) = unat (stale_size ctx) + unat (fresh_size ctx)"
    and f: "unat (free_size ctx) + unat (used_size ctx) = unat (cap_size ctx)"
    by (simp_all add: counters_ok_def)
  have "unat (stale_size ctx) + unat sz < 4294967296"
    using f u n len small by linarith
  then have "unat (stale_size ctx + sz) = unat (stale_size ctx) + length bytes"
    using n unat_add_32 [of "stale_size ctx" sz] by simp
  then have "int (unat (stale_size ctx + sz)) = int (unat (stale_size ctx) + length bytes)"
    by (rule arg_cong)
  then show "uint (stale_size ctx + of_nat (length bytes)) = uint (stale_size ctx) + int (length bytes)"
    by (simp add: sz_def)
  show "round_trip ctx bytes =
           Inr (SSTM_OK, SSTM_OK, take (length bytes) (fresh_bytes ctx @ bytes),
                \<lparr> stat_cap_size = cap_size ctx,
                  stat_used_size = used_size ctx + of_nat (length bytes),
                  stat_stale_size = stale_size ctx + of_nat (length bytes),
                  stat_fresh_size = fresh_size ctx,
                  stat_free_size = free_size ctx - of_nat (length bytes),
                  stat_seek_offs = seek_offs ctx + of_nat (length bytes) \<rparr>)"
  proof (cases "sz = 0")
    case True
    with n have "bytes = []" by simp
    then show ?thesis
      by (simp add: round_trip_def sstm_write_zero sstm_read_zero sstm_stat_def)
  next
    case nz: False
    have df: "data_fits (Some bytes) sz" using n by (simp add: data_fits_def)
    from write_stores [OF ok fits big nz le df] obtain buf where
      w: "sstm_write ctx (Some bytes) sz = Inr (SSTM_OK, wrote ctx buf (write_tail ctx sz) sz)"
      and a: "\<forall>j < unat sz.
              buf ((unat (tail_idx ctx) + j) mod (unat (cap_size ctx) + 1)) = payload (Some bytes) j"
      and b: "\<forall>i. (\<forall>j < unat sz. (unat (tail_idx ctx) + j) mod (unat (cap_size ctx) + 1) \<noteq> i) \<longrightarrow>
              buf i = ring_buff ctx i"
      by blast
    define c1 where "c1 = wrote ctx buf (write_tail ctx sz) sz"
    have "payload (Some bytes) = (!) bytes"
      by (rule ext) (simp add: payload_def)
    then have "map (payload (Some bytes)) [0..<unat sz] = bytes"
      using n by (simp add: map_nth)
    then have res: "resident c1 = resident ctx @ bytes"
      unfolding c1_def using resident_wrote [OF ok d le a b] by simp
    have st1: "stale_size c1 = stale_size ctx" by (simp add: c1_def wrote_def)
    have fb: "fresh_bytes c1 = fresh_bytes ctx @ bytes"
      using res u st1 by (simp add: fresh_bytes_def length_resident)
    have tl: "unat (write_tail ctx sz) \<le> unat (cap_size ctx)"
      using ok le small_cap_succ(1) [OF big] by (intro write_tail_le_cap) simp_all
    have ok1: "counters_ok c1"
      unfolding c1_def using ok le tl by (rule wrote_counters_ok)
    have same1: "cap_size c1 = cap_size ctx" "alloc_size c1 = alloc_size ctx"
      "fresh_size c1 = fresh_size ctx + sz"
      by (simp_all add: c1_def wrote_def)
    have fits1: "alloc_fits c1" using fits same1 by (simp add: alloc_fits_def)
    have small1: "unat (cap_size c1) < 2147483648" using small same1 by simp
    have big1: "unat (cap_size c1) < 4294967295" using big same1 by simp
    have "unat (fresh_size ctx) + unat sz < 4294967296"
      using f u n len small by linarith
    then have "unat (fresh_size ctx + sz) = unat (fresh_size ctx) + unat sz"
      by (rule unat_add_32)
    then have le1: "sz \<le> fresh_size c1"
      using same1 by (simp add: word_le_nat_alt)
    from read_delivers [OF ok1 fits1 big1 nz le1, of True] obtain out where
      rc: "read_copy c1 True sz = Inr out"
      and r: "sstm_read c1 True sz False = Inr (SSTM_OK, out, advanced c1 sz)"
      by auto
    from fresh_read [OF ok1 fits1 small1 le1] rc n fb
    have out: "out = take (length bytes) (fresh_bytes ctx @ bytes)" by simp
    have "snd (sstm_stat (advanced c1 sz)) =
            \<lparr> stat_cap_size = cap_size ctx,
              stat_used_size = used_size ctx + sz,
              stat_stale_size = stale_size ctx + sz,
              stat_fresh_size = fresh_size ctx,
              stat_free_size = free_size ctx - sz,
              stat_seek_offs = seek_offs ctx + sz \<rparr>"
      by (simp add: sstm_stat_def advanced_def c1_def wrote_def)
    with w r out show ?thesis
      by (simp add: round_trip_def sz_def c1_def)
  qed
qed

lemma no_fresh_bytes:
  assumes ok: "counters_ok ctx" and z: "fresh_size ctx = 0"
  shows "fresh_bytes ctx = []"
  using assms by (simp add: counters_ok_def fresh_bytes_def length_resident)

subsection \<open>The example streams are reachable\<close>

lemma run_reachable: "reachable ctx \<Longrightarrow> run cs ctx = Inr ctx' \<Longrightarrow> reachable ctx'"
proof (induction cs arbitrary: ctx)
  case Nil
  then show ?case by simp
next
  case (Cons c cs)
  from Cons.prems(2) obtain r out mid where
    st: "step c ctx = Inr (r, out, mid)" and rest: "run cs mid = Inr ctx'"
    by (auto split: sum.splits)
  from Cons.prems(1) st have "reachable mid" by (rule reachable.called)
  then show ?case using rest by (rule Cons.IH)
qed

lemma sstm_new_huge:
  "sstm_new (Some huge_conf) (Some zero_mem) True = Inr (SSTM_OK, Some empty_huge, [RingBlock, CtxBlock])"
  by (simp add: sstm_new_def huge_conf_def empty_huge_def SSTM_CAP_SIZE_MIN_def)

lemma reachable_empty_huge: "reachable empty_huge"
  by (rule reachable.created [OF sstm_new_huge])

lemma write_empty_huge: "sstm_write empty_huge None 0x80000000 = Inr (SSTM_OK, filled_huge)"
  by (simp add: sstm_write_def empty_huge_def filled_huge_def copy_or_zero_def ring_memset_def
        zero_mem_def word_le_nat_alt)

lemma run_to_wrapped_huge:
  "run [Read False 0x80000000 True, Write None 0x80000000] filled_huge = Inr wrapped_huge"
  by (simp add: sstm_write_def sstm_read_def sstm_clean_def filled_huge_def wrapped_huge_def
        copy_or_zero_def ring_memset_def zero_mem_def word_le_nat_alt Let_def)

lemma read_wrapped_huge:
  "sstm_read wrapped_huge False 0x80000000 True = Inr (SSTM_OK, [], drifted_huge)"
  by (simp add: sstm_read_def sstm_clean_def wrapped_huge_def drifted_huge_def Let_def)

lemma reachable_filled_huge: "reachable filled_huge"
  using reachable_empty_huge by (rule reachable.called [where c = "Write None 0x80000000"])
    (simp add: write_empty_huge)

lemma reachable_wrapped_huge: "reachable wrapped_huge"
  using reachable_filled_huge run_to_wrapped_huge by (rule run_reachable)

lemma reachable_drifted_huge: "reachable drifted_huge"
  using reachable_wrapped_huge by (rule reachable.called [where c = "Read False 0x80000000 True"])
    (simp add: read_wrapped_huge)

lemma sstm_new_default:
  "sstm_new None (Some zero_mem) True = Inr (SSTM_OK, Some empty_default, [RingBlock, CtxBlock])"
  by (simp add: sstm_new_def empty_default_def SSTM_CAP_SIZE_DEF_def)

lemma reachable_empty_default: "reachable empty_default"
  by (rule reachable.created [OF sstm_new_default])


lemma write_empty_default: "sstm_write empty_default None 1 = Inr (SSTM_OK, one_written)"
  by (simp add: sstm_write_def empty_default_def one_written_def copy_or_zero_def ring_memset_def
        zero_mem_def word_le_nat_alt)

lemma reachable_one_written: "reachable one_written"
  using reachable_empty_default by (rule reachable.called [where c = "Write None 1"])
    (simp add: write_empty_default)

lemma read_one_written: "sstm_read one_written False 1 False = Inr (SSTM_OK, [], one_read)"
  by (simp add: sstm_read_def one_written_def one_read_def Let_def)

lemma reachable_one_read: "reachable one_read"
  using reachable_one_written by (rule reachable.called [where c = "Read False 1 False"])
    (simp add: read_one_written)

lemma run_to_at_edge: "run [Write None 1024, Read False 1024 True] empty_default = Inr at_edge"
  by (simp add: sstm_write_def sstm_read_def sstm_clean_def empty_default_def at_edge_def
        copy_or_zero_def ring_memset_def zero_mem_def word_le_nat_alt Let_def)

lemma reachable_at_edge: "reachable at_edge"
  using reachable_empty_default run_to_at_edge by (rule run_reachable)

lemma run_to_half_read: "run [Write None 2, Read False 1 False] empty_default = Inr half_read"
  by (simp add: sstm_write_def sstm_read_def empty_default_def half_read_def
        copy_or_zero_def ring_memset_def zero_mem_def word_le_nat_alt Let_def)

lemma reachable_half_read: "reachable half_read"
  using reachable_empty_default run_to_half_read by (rule run_reachable)

lemma sstm_new_max:
  "sstm_new (Some max_conf) (Some zero_mem) True = Inr (SSTM_OK, Some empty_max, [RingBlock, CtxBlock])"
  by (simp add: sstm_new_def max_conf_def empty_max_def SSTM_CAP_SIZE_MIN_def)

lemma reachable_empty_max: "reachable empty_max"
  by (rule reachable.created [OF sstm_new_max])

subsection \<open>Streams whose ring buffer holds \<open>capacity + 1\<close> bytes\<close>

text \<open>
  \<^verbatim>\<open>sstm_new\<close> means the ring buffer to hold the \<open>capacity + 1\<close> bytes that the indices
  range over. In every reachable state where it does, a write that fits appends its bytes
  and moves the tail by their number modulo \<open>capacity + 1\<close>, in the single copy as in the
  split one, and a stream with nothing resident delivers the same bytes again after a rewind
  to offset 0.
\<close>

lemma alloc_fits_succ: "alloc_fits ctx \<Longrightarrow> unat (cap_size ctx) < 4294967295"
  using unat_lt_32 [of "alloc_size ctx"] by (simp add: alloc_fits_def)

lemma fitting_write_appends:
  assumes "reachable ctx" and "alloc_fits ctx"
    and "sz \<noteq> 0" and "sz \<le> free_size ctx" and "data_fits data sz"
  shows "\<exists>ctx'. sstm_write ctx data sz = Inr (SSTM_OK, ctx') \<and>
           uint (tail_idx ctx') = (uint (tail_idx ctx) + uint sz) mod (uint (cap_size ctx) + 1) \<and>
           uint (used_size ctx') = uint (used_size ctx) + uint sz \<and>
           uint (fresh_size ctx') = uint (fresh_size ctx) + uint sz \<and>
           uint (free_size ctx') = uint (free_size ctx) - uint sz \<and>
           stale_size ctx' = stale_size ctx \<and>
           seek_offs ctx' = seek_offs ctx \<and>
           head_idx ctx' = head_idx ctx"
proof -
  from assms(1) have ok: "counters_ok ctx" by (rule reachable_counters_ok)
  from assms(2) have big: "unat (cap_size ctx) < 4294967295" by (rule alloc_fits_succ)
  from write_stores [OF ok assms(2) big assms(3,4,5)] obtain buf where
    w: "sstm_write ctx data sz = Inr (SSTM_OK, wrote ctx buf (write_tail ctx sz) sz)"
    by blast
  from ok have t: "unat (tail_idx ctx) \<le> unat (cap_size ctx)"
    and f: "unat (free_size ctx) \<le> unat (cap_size ctx)"
    by (simp_all add: counters_ok_def)
  from assms(4) have "unat sz \<le> unat (free_size ctx)" by (simp add: word_le_nat_alt)
  with f have n: "unat sz \<le> unat (cap_size ctx)" by linarith
  note tl = write_tail_uint [OF big t n]
  note sizes = wrote_sizes [OF ok assms(4)]
  show ?thesis
    using w tl sizes by (simp add: wrote_def)
qed

lemma fitting_write_appends_at_edge:
  "\<exists>ctx'. sstm_write at_edge (Some [7, 9]) 2 = Inr (SSTM_OK, ctx') \<and>
      uint (tail_idx at_edge) = 1024 \<and> uint (tail_idx ctx') = 1 \<and>
      uint (used_size ctx') = 2 \<and> uint (fresh_size ctx') = 2 \<and> uint (free_size ctx') = 1022 \<and>
      stale_size ctx' = 0 \<and> seek_offs ctx' = 0 \<and> head_idx ctx' = 1024"
proof -
  have h2: "alloc_fits at_edge" by (simp add: alloc_fits_def at_edge_def)
  have h3: "(2 :: sstm_size_t) \<noteq> 0" by simp
  have h4: "2 \<le> free_size at_edge" by (simp add: at_edge_def)
  have h5: "data_fits (Some [7, 9]) 2" by (simp add: data_fits_def)
  from fitting_write_appends [OF reachable_at_edge h2 h3 h4 h5] obtain ctx' where
    "sstm_write at_edge (Some [7, 9]) 2 = Inr (SSTM_OK, ctx')"
    "uint (tail_idx ctx') = (uint (tail_idx at_edge) + uint (2 :: sstm_size_t)) mod (uint (cap_size at_edge) + 1)"
    "uint (used_size ctx') = uint (used_size at_edge) + uint (2 :: sstm_size_t)"
    "uint (fresh_size ctx') = uint (fresh_size at_edge) + uint (2 :: sstm_size_t)"
    "uint (free_size ctx') = uint (free_size at_edge) - uint (2 :: sstm_size_t)"
    "stale_size ctx' = stale_size at_edge"
    "seek_offs ctx' = seek_offs at_edge"
    "head_idx ctx' = head_idx at_edge"
    by blast
  then have "sstm_write at_edge (Some [7, 9]) 2 = Inr (SSTM_OK, ctx') \<and>
      uint (tail_idx at_edge) = 1024 \<and> uint (tail_idx ctx') = 1 \<and>
      uint (used_size ctx') = 2 \<and> uint (fresh_size ctx') = 2 \<and> uint (free_size ctx') = 1022 \<and>
      stale_size ctx' = 0 \<and> seek_offs ctx' = 0 \<and> head_idx ctx' = 1024"
    by (simp add: at_edge_def)
  then show ?thesis by blast
qed

lemma fitting_rewind_reads_the_same_bytes:
  assumes "reachable ctx" and "alloc_fits ctx"
    and "used_size ctx = 0" and "k \<le> free_size ctx" and "data_fits data k"
  shows "\<exists>out. rewind_twice ctx data k cleanup =
                 Inr ([SSTM_OK, SSTM_OK, SSTM_OK, SSTM_OK], out, out) \<and>
               length out = unat k"
proof -
  from assms(1) have ok: "counters_ok ctx" by (rule reachable_counters_ok)
  from assms(2) have big: "unat (cap_size ctx) < 4294967295" by (rule alloc_fits_succ)
  from ok assms(2) big assms(3,4,5) show ?thesis by (rule rewind_delivers_again)
qed

lemma fitting_rewind_at_edge:
  "rewind_twice at_edge (Some [7, 8, 9]) 3 False =
     Inr ([SSTM_OK, SSTM_OK, SSTM_OK, SSTM_OK], [7, 8, 9], [7, 8, 9])"
proof -
  have h2: "alloc_fits at_edge" by (simp add: alloc_fits_def at_edge_def)
  have h3: "used_size at_edge = 0" by (simp add: at_edge_def)
  have h4: "3 \<le> free_size at_edge" by (simp add: at_edge_def)
  have h5: "data_fits (Some [7, 8, 9]) 3" by (simp add: data_fits_def)
  from fitting_rewind_reads_the_same_bytes [OF reachable_at_edge h2 h3 h4 h5, of False]
  obtain out where
    "rewind_twice at_edge (Some [7, 8, 9]) 3 False = Inr ([SSTM_OK, SSTM_OK, SSTM_OK, SSTM_OK], out, out)"
    by blast
  moreover have "\<exists>r o2. rewind_twice at_edge (Some [7, 8, 9]) 3 False = Inr (r, [7, 8, 9], o2)"
    by (simp add: rewind_twice_def sstm_write_def sstm_read_def sstm_seek_def at_edge_def
          copy_or_zero_def ring_memcpy_in_def ring_memcpy_out_def word_le_nat_alt Let_def
          upt_rec zero_mem_def)
  ultimately show ?thesis by auto
qed

text \<open>
  The stream of capacity \<open>2 ^ 32 - 8\<close> is not one of them: its ring buffer has 0 bytes, and
  a write of as many bytes as are free runs past the end of the block.
\<close>

lemma empty_max_does_not_fit: "alloc_size empty_max = 0 \<and> \<not> alloc_fits empty_max"
  by (simp add: alloc_fits_def empty_max_def)

lemma write_empty_max: "sstm_write empty_max None 0xFFFFFFF8 = Inl OutOfBounds"
  by (simp add: sstm_write_def empty_max_def copy_or_zero_def ring_memset_def word_le_nat_alt)

section \<open>The claims\<close>

text \<open>
  C1, as stated, fails: on a stream of capacity \<open>2 ^ 31\<close> whose head and stale size are both
  \<open>2 ^ 31\<close>, the sum \<^verbatim>\<open>head_idx + stale_size\<close> of \<^verbatim>\<open>sstm_clean\<close> wraps to 0 in 32 bits, and
  the read that reclaims returns with the head at 0 and the tail at \<open>2 ^ 31 - 1\<close> around an
  empty window.
\<close>

theorem distance_drifts_at_huge_capacity:
  "reachable wrapped_huge \<and>
   step (Read False 0x80000000 True) wrapped_huge = Inr (SSTM_OK, [], drifted_huge) \<and>
   \<not> inv_distance drifted_huge"
proof -
  have "\<not> inv_distance drifted_huge"
    by (simp add: inv_distance_def drifted_huge_def)
  then show ?thesis
    using reachable_wrapped_huge read_wrapped_huge by simp
qed

text \<open>
  C1, amended. After any call of write, read, seek or clean that returns in a reachable state,
  with any result code, invariants 1, 2, 3 and 5 hold; invariant 4 holds as well when the
  capacity is below \<open>2 ^ 31\<close>.
\<close>

theorem invariants_after_every_call:
  assumes "reachable ctx" and "step c ctx = Inr (r, out, ctx')"
  shows "inv_used ctx' \<and> inv_free ctx' \<and> inv_cursor ctx' \<and> inv_indices ctx' \<and>
         (uint (cap_size ctx) < 2 ^ 31 \<longrightarrow> inv_distance ctx')"
proof -
  from assms have re: "reachable ctx'" by (rule reachable.called)
  then have ok: "counters_ok ctx'" by (rule reachable_counters_ok)
  have "inv_distance ctx'" if "uint (cap_size ctx) < 2 ^ 31"
  proof -
    from assms(2) have "cap_size ctx' = cap_size ctx" by (simp add: step_keeps_sizes)
    with that have "int (unat (cap_size ctx')) < 2147483648"
      by simp
    then have "unat (cap_size ctx') < 2147483648"
      by linarith
    with re have "dist_ok ctx'" by (rule reachable_dist_ok)
    with ok show ?thesis by (rule dist_ok_inv_distance)
  qed
  with ok show ?thesis by (simp add: counters_ok_invs)
qed

theorem invariants_after_every_call_witness:
  "reachable empty_default \<and>
   step (Write None 1) empty_default = Inr (SSTM_OK, [], one_written) \<and>
   inv_used one_written \<and> inv_free one_written \<and> inv_cursor one_written \<and>
   inv_indices one_written \<and> uint (cap_size empty_default) < 2 ^ 31 \<and>
   inv_distance one_written"
proof -
  have st: "step (Write None 1) empty_default = Inr (SSTM_OK, [], one_written)"
    by (simp add: write_empty_default)
  have small: "uint (cap_size empty_default) < 2 ^ 31"
    by (simp add: empty_default_def)
  from invariants_after_every_call [OF reachable_empty_default st] small
  show ?thesis using reachable_empty_default st by simp
qed

text \<open>
  C2. When the allocation of the ring buffer fails, \<^verbatim>\<open>sstm_new\<close> returns
  \<^verbatim>\<open>SSTM_ERR_NO_MEM\<close> with nothing allocated and no stream. When the ring buffer is allocated
  and the allocation of the context fails, it does not: the test after the second
  \<^verbatim>\<open>malloc\<close> looks at \<^verbatim>\<open>ring_buff\<close> again, so the call neither frees the ring buffer nor
  returns, and goes on to store the fields through the null \<^verbatim>\<open>new_ctx\<close>.
\<close>

theorem sstm_new_allocation_failures:
  "sstm_new conf None ctx_malloc = Inr (SSTM_ERR_NO_MEM, None, []) \<and>
   sstm_new conf (Some mem) False = Inl NullDeref"
  by (simp add: sstm_new_def Let_def)

text \<open>
  C3, as stated, fails: on the stream of capacity \<open>2 ^ 31\<close> whose head \<^verbatim>\<open>sstm_clean\<close> has
  left at 0 while the tail is at \<open>2 ^ 31 - 1\<close>, nothing is fresh, the byte 1 is written at the
  tail, and the read that follows returns \<^verbatim>\<open>SSTM_OK\<close> and delivers the byte at the head,
  which is 0.
\<close>

theorem round_trip_misreads_at_huge_capacity:
  "reachable drifted_huge \<and> fresh_size drifted_huge = 0 \<and>
   length [1 :: sstm_u8_t] \<le> unat (free_size drifted_huge) \<and>
   round_trip drifted_huge [1] = Inr (SSTM_OK, SSTM_OK, [0], drifted_huge_after)"
proof -
  have "round_trip drifted_huge [1] = Inr (SSTM_OK, SSTM_OK, [0], drifted_huge_after)"
    by (simp add: round_trip_def sstm_write_def sstm_read_def sstm_stat_def drifted_huge_def
          drifted_huge_after_def copy_or_zero_def ring_memcpy_in_def ring_memcpy_out_def
          word_le_nat_alt Let_def zero_mem_def)
  moreover have "fresh_size drifted_huge = 0" "length [1 :: sstm_u8_t] \<le> unat (free_size drifted_huge)"
    by (simp_all add: drifted_huge_def)
  ultimately show ?thesis
    using reachable_drifted_huge by blast
qed

text \<open>
  C3, amended. In a reachable state of a stream whose capacity is below \<open>2 ^ 31\<close>, for every
  byte sequence no longer than \<open>free\<close>: writing the bytes and then reading as many returns
  \<^verbatim>\<open>SSTM_OK\<close> twice, and the read delivers the fresh bytes from the cursor on, which are the
  bytes that were fresh before the write followed by the bytes written, whether these lie in
  one piece or are split around the end of the ring. Afterwards \<open>stale\<close> and the cursor are
  larger by the number of bytes, and \<open>fresh\<close> is what it was before the write. When nothing
  was fresh before the write, the bytes delivered are the bytes written, and \<open>fresh\<close> is 0
  afterwards.
\<close>

theorem round_trip_returns_the_bytes:
  assumes "reachable ctx" and "uint (cap_size ctx) < 2 ^ 31"
    and "length bytes \<le> unat (free_size ctx)"
  shows "round_trip ctx bytes =
           Inr (SSTM_OK, SSTM_OK, take (length bytes) (fresh_bytes ctx @ bytes),
                \<lparr> stat_cap_size = cap_size ctx,
                  stat_used_size = used_size ctx + of_nat (length bytes),
                  stat_stale_size = stale_size ctx + of_nat (length bytes),
                  stat_fresh_size = fresh_size ctx,
                  stat_free_size = free_size ctx - of_nat (length bytes),
                  stat_seek_offs = seek_offs ctx + of_nat (length bytes) \<rparr>) \<and>
         uint (stale_size ctx + of_nat (length bytes)) = uint (stale_size ctx) + int (length bytes) \<and>
         (fresh_size ctx = 0 \<longrightarrow> take (length bytes) (fresh_bytes ctx @ bytes) = bytes)"
proof -
  note base = small_cap_fits [OF assms(1,2)]
  from assms(1) base(4) have d: "dist_ok ctx" by (rule reachable_dist_ok)
  note rt = round_trip_delivers [OF base(1) d base(2) base(4) assms(3)]
  have "take (length bytes) (fresh_bytes ctx @ bytes) = bytes" if "fresh_size ctx = 0"
    using no_fresh_bytes [OF base(1) that] by simp
  with rt show ?thesis by blast
qed

theorem round_trip_returns_the_bytes_witness:
  "reachable at_edge \<and> uint (cap_size at_edge) < 2 ^ 31 \<and>
   length [7 :: sstm_u8_t, 8, 9] \<le> unat (free_size at_edge) \<and> fresh_size at_edge = 0 \<and>
   round_trip at_edge [7, 8, 9] = Inr (SSTM_OK, SSTM_OK, [7, 8, 9], at_edge_after)"
proof -
  have h2: "uint (cap_size at_edge) < 2 ^ 31" by (simp add: at_edge_def)
  have h3: "length [7 :: sstm_u8_t, 8, 9] \<le> unat (free_size at_edge)" by (simp add: at_edge_def)
  have z: "fresh_size at_edge = 0" by (simp add: at_edge_def)
  have e: "fresh_bytes at_edge = []"
    using reachable_counters_ok [OF reachable_at_edge] z by (rule no_fresh_bytes)
  from round_trip_returns_the_bytes [OF reachable_at_edge h2 h3] e
  have "round_trip at_edge [7, 8, 9] = Inr (SSTM_OK, SSTM_OK, [7, 8, 9], at_edge_after)"
    by (simp add: at_edge_def at_edge_after_def)
  then show ?thesis
    using reachable_at_edge h2 h3 z by blast
qed

text \<open>
  C4. \<^verbatim>\<open>sstm_new\<close> takes the requested capacity \<open>2 ^ 32 - 8\<close> as given and computes the
  allocation size \<^verbatim>\<open>((cap_size >> 3) + 1) << 3\<close> in 32 bits, where it is 0: where
  \<^verbatim>\<open>malloc(0)\<close> gives a block, the call returns \<^verbatim>\<open>SSTM_OK\<close> with a stream whose ring buffer
  does not hold the \<open>capacity + 1\<close> bytes that the comment above the computation asks for.
  That stream has \<open>used = 0\<close>; with \<open>k = free\<close>, the write that opens the rewind sequence
  runs past the end of the ring buffer, so no call of the sequence returns \<^verbatim>\<open>SSTM_OK\<close> and
  no second read delivers the bytes of the first.
\<close>

theorem rewind_faults_at_highest_capacity:
  "sstm_new (Some max_conf) (Some zero_mem) True =
     Inr (SSTM_OK, Some empty_max, [RingBlock, CtxBlock]) \<and>
   conf_cap_size max_conf = 0xFFFFFFF8 \<and> alloc_size empty_max = 0 \<and> \<not> alloc_fits empty_max \<and>
   reachable empty_max \<and> used_size empty_max = 0 \<and> 0xFFFFFFF8 \<le> free_size empty_max \<and>
   data_fits None 0xFFFFFFF8 \<and>
   rewind_twice empty_max None 0xFFFFFFF8 False = Inl OutOfBounds"
proof -
  have "rewind_twice empty_max None 0xFFFFFFF8 False = Inl OutOfBounds"
    using write_empty_max by (simp add: rewind_twice_def)
  moreover have "0xFFFFFFF8 \<le> free_size empty_max" "used_size empty_max = 0"
    by (simp_all add: empty_max_def)
  moreover have "conf_cap_size max_conf = 0xFFFFFFF8"
    by (simp add: max_conf_def)
  ultimately show ?thesis
    using sstm_new_max reachable_empty_max empty_max_does_not_fit by (simp add: data_fits_def)
qed

text \<open>
  C5. A write that returns \<^verbatim>\<open>SSTM_ERR_NO_SPACE\<close>, a read that returns
  \<^verbatim>\<open>SSTM_ERR_NO_DATA\<close> and a seek that returns \<^verbatim>\<open>SSTM_ERR_BAD_OFFS\<close> leave the context as
  it was: every counter, both indices, the cursor and every byte of the buffer. The failed
  read stores nothing at its destination.
\<close>

theorem error_paths_keep_state:
  "(sstm_write ctx data sz = Inr (SSTM_ERR_NO_SPACE, ctx') \<longrightarrow> ctx' = ctx) \<and>
   (sstm_read ctx dst sz cleanup = Inr (SSTM_ERR_NO_DATA, out, ctx') \<longrightarrow> ctx' = ctx \<and> out = []) \<and>
   (sstm_seek ctx offset whence = Inr (SSTM_ERR_BAD_OFFS, ctx') \<longrightarrow> ctx' = ctx)"
proof (intro conjI impI)
  assume "sstm_write ctx data sz = Inr (SSTM_ERR_NO_SPACE, ctx')"
  then show "ctx' = ctx" by (cases rule: write_returns) simp_all
next
  assume r: "sstm_read ctx dst sz cleanup = Inr (SSTM_ERR_NO_DATA, out, ctx')"
  then show "ctx' = ctx" by (cases rule: read_returns) simp_all
  from r show "out = []" by (cases rule: read_returns) simp_all
next
  assume "sstm_seek ctx offset whence = Inr (SSTM_ERR_BAD_OFFS, ctx')"
  then show "ctx' = ctx" by (cases rule: seek_returns) simp_all
qed

theorem error_paths_keep_state_witness:
  "sstm_write empty_default None 2000 = Inr (SSTM_ERR_NO_SPACE, empty_default) \<and>
   sstm_read empty_default True 1 False = Inr (SSTM_ERR_NO_DATA, [], empty_default) \<and>
   sstm_seek empty_default (- 1) SSTM_SEEK_SET = Inr (SSTM_ERR_BAD_OFFS, empty_default)"
proof -
  have w: "sstm_write empty_default None 2000 = Inr (SSTM_ERR_NO_SPACE, empty_default)"
    by (simp add: sstm_write_def empty_default_def)
  have r: "sstm_read empty_default True 1 False = Inr (SSTM_ERR_NO_DATA, [], empty_default)"
    by (simp add: sstm_read_def empty_default_def)
  have s: "sstm_seek empty_default (- 1) SSTM_SEEK_SET = Inr (SSTM_ERR_BAD_OFFS, empty_default)"
    by (simp add: sstm_seek_def empty_default_def)
  from error_paths_keep_state
    [of empty_default None 2000 empty_default True False "[]" "- 1" SSTM_SEEK_SET]
  show ?thesis using w r s by simp
qed

text \<open>
  C6. \<^verbatim>\<open>sstm_new\<close> takes the requested capacity \<open>2 ^ 32 - 8\<close> as given and computes the
  allocation size \<^verbatim>\<open>((cap_size >> 3) + 1) << 3\<close> in 32 bits, where it is 0: where
  \<^verbatim>\<open>malloc(0)\<close> gives a block, the call returns \<^verbatim>\<open>SSTM_OK\<close> with a stream whose ring buffer
  does not hold the \<open>capacity + 1\<close> bytes that the comment above the computation asks for.
  On that stream a write of \<open>sz = free\<close> bytes, with \<open>0 < sz\<close>, does not return
  \<^verbatim>\<open>SSTM_OK\<close> with the tail moved by \<open>sz\<close>: its \<^verbatim>\<open>memset\<close> of \<open>sz\<close> bytes runs past the end
  of the ring buffer.
\<close>

theorem write_faults_at_highest_capacity:
  "sstm_new (Some max_conf) (Some zero_mem) True =
     Inr (SSTM_OK, Some empty_max, [RingBlock, CtxBlock]) \<and>
   conf_cap_size max_conf = 0xFFFFFFF8 \<and> alloc_size empty_max = 0 \<and> \<not> alloc_fits empty_max \<and>
   reachable empty_max \<and> (0xFFFFFFF8 :: sstm_size_t) \<noteq> 0 \<and>
   0xFFFFFFF8 \<le> free_size empty_max \<and> data_fits None 0xFFFFFFF8 \<and>
   sstm_write empty_max None 0xFFFFFFF8 = Inl OutOfBounds"
proof -
  have "0xFFFFFFF8 \<le> free_size empty_max"
    by (simp add: empty_max_def)
  moreover have "conf_cap_size max_conf = 0xFFFFFFF8"
    by (simp add: max_conf_def)
  ultimately show ?thesis
    using sstm_new_max reachable_empty_max empty_max_does_not_fit write_empty_max
    by (simp add: data_fits_def)
qed

text \<open>
  C7, as stated, fails: with \<open>2 ^ 31\<close> bytes resident, a seek to the end (\<^verbatim>\<open>SSTM_SEEK_END\<close>,
  offset 0) has the target \<open>used\<close>, which is neither negative nor beyond \<open>used\<close>; the cast of
  \<^verbatim>\<open>used_size\<close> to \<^verbatim>\<open>sstm_offs_t\<close> is negative, and the call returns
  \<^verbatim>\<open>SSTM_ERR_BAD_OFFS\<close>.
\<close>

theorem seek_end_rejected_at_huge_size:
  "reachable filled_huge \<and>
   seek_target filled_huge 0 SSTM_SEEK_END = uint (used_size filled_huge) \<and>
   \<not> seek_target filled_huge 0 SSTM_SEEK_END < 0 \<and>
   \<not> uint (used_size filled_huge) < seek_target filled_huge 0 SSTM_SEEK_END \<and>
   sstm_seek filled_huge 0 SSTM_SEEK_END = Inr (SSTM_ERR_BAD_OFFS, filled_huge)"
proof -
  have "sstm_seek filled_huge 0 SSTM_SEEK_END = Inr (SSTM_ERR_BAD_OFFS, filled_huge)"
    by (simp add: sstm_seek_def filled_huge_def)
  moreover have "seek_target filled_huge 0 SSTM_SEEK_END = uint (used_size filled_huge)"
    by (simp add: seek_target_def)
  ultimately show ?thesis
    using reachable_filled_huge by simp
qed

text \<open>
  C7, amended. In a reachable state with fewer than \<open>2 ^ 31\<close> bytes resident, for every
  offset and every whence, the target is the offset (\<^verbatim>\<open>SSTM_SEEK_SET\<close>), the cursor plus the
  offset (\<^verbatim>\<open>SSTM_SEEK_CUR\<close>) or the used size plus the offset (\<^verbatim>\<open>SSTM_SEEK_END\<close>); the seek
  returns \<^verbatim>\<open>SSTM_ERR_BAD_OFFS\<close>, changing nothing, exactly when the target is negative or
  beyond the used size; it returns \<^verbatim>\<open>SSTM_OK\<close>, changing nothing, when the target is the
  cursor; otherwise it returns \<^verbatim>\<open>SSTM_OK\<close> with the cursor and the stale size at the target
  and the fresh size at the used size minus the target.
\<close>

theorem seek_moves_cursor_to_target:
  assumes "reachable ctx" and "uint (used_size ctx) < 2 ^ 31"
  shows "sstm_seek ctx offset whence =
     (if seek_target ctx offset whence < 0 \<or> uint (used_size ctx) < seek_target ctx offset whence
      then Inr (SSTM_ERR_BAD_OFFS, ctx)
      else if seek_target ctx offset whence = uint (seek_offs ctx) then Inr (SSTM_OK, ctx)
      else Inr (SSTM_OK,
                ctx \<lparr> seek_offs := word_of_int (seek_target ctx offset whence),
                      stale_size := word_of_int (seek_target ctx offset whence),
                      fresh_size := word_of_int (uint (used_size ctx) - seek_target ctx offset whence) \<rparr>))"
proof -
  from assms(1) have "counters_ok ctx" by (rule reachable_counters_ok)
  then have "inv_cursor ctx" by (rule counters_ok_invs)
  then have "uint (seek_offs ctx) \<le> uint (used_size ctx)" unfolding inv_cursor_def by blast
  moreover from assms(2) have "uint (used_size ctx) < 2147483648" by simp
  ultimately show ?thesis by (rule seek_follows_target)
qed

theorem seek_moves_cursor_to_target_witness:
  "reachable one_written \<and> uint (used_size one_written) < 2 ^ 31 \<and>
   sstm_seek one_written 1 SSTM_SEEK_SET = Inr (SSTM_OK, one_read) \<and>
   sstm_seek one_written 2 SSTM_SEEK_SET = Inr (SSTM_ERR_BAD_OFFS, one_written) \<and>
   sstm_seek one_written (- 1) SSTM_SEEK_END = Inr (SSTM_OK, one_written)"
proof -
  have small: "uint (used_size one_written) < 2 ^ 31"
    by (simp add: one_written_def)
  note th = seek_moves_cursor_to_target [OF reachable_one_written small]
  have "sstm_seek one_written 1 SSTM_SEEK_SET = Inr (SSTM_OK, one_read)"
    using th [of 1 SSTM_SEEK_SET] by (simp add: seek_target_def one_written_def one_read_def)
  moreover have "sstm_seek one_written 2 SSTM_SEEK_SET = Inr (SSTM_ERR_BAD_OFFS, one_written)"
    using th [of 2 SSTM_SEEK_SET] by (simp add: seek_target_def one_written_def)
  moreover have "sstm_seek one_written (- 1) SSTM_SEEK_END = Inr (SSTM_OK, one_written)"
    using th [of "- 1" SSTM_SEEK_END] by (simp add: seek_target_def one_written_def)
  ultimately show ?thesis
    using reachable_one_written small by simp
qed

text \<open>
  C8, as stated, fails twice. With one stale byte resident, a reclaiming read of one byte
  leaves \<open>free\<close> two higher, not one higher, than the same read without reclaiming: the stale
  region reclaimed holds the bytes read before as well. And on a stream of capacity \<open>2 ^ 31\<close>
  with the head at \<open>2 ^ 31\<close>, reclaiming \<open>2 ^ 31\<close> bytes leaves the head at 0, not at
  \<open>2 ^ 31 - 1\<close>: the sum wraps in 32 bits.
\<close>

theorem reclaiming_read_frees_more_than_it_reads:
  "reachable half_read \<and> (1 :: sstm_size_t) \<noteq> 0 \<and> 1 \<le> fresh_size half_read \<and>
   sstm_read half_read False 1 True = Inr (SSTM_OK, [], half_swept) \<and>
   sstm_read half_read False 1 False = Inr (SSTM_OK, [], half_kept) \<and>
   uint (free_size half_swept) \<noteq>
     uint (free_size half_kept) + uint (1 :: sstm_size_t) \<and>
   reachable wrapped_huge \<and> (0x80000000 :: sstm_size_t) \<noteq> 0 \<and>
   0x80000000 \<le> fresh_size wrapped_huge \<and>
   sstm_read wrapped_huge False 0x80000000 True = Inr (SSTM_OK, [], drifted_huge) \<and>
   uint (head_idx drifted_huge) \<noteq>
     (uint (head_idx wrapped_huge) + (uint (stale_size wrapped_huge) + uint (0x80000000 :: sstm_size_t)))
       mod (uint (cap_size wrapped_huge) + 1)"
proof -
  have a: "sstm_read half_read False 1 True = Inr (SSTM_OK, [], half_swept)"
    by (simp add: sstm_read_def sstm_clean_def half_read_def half_swept_def Let_def)
  have b: "sstm_read half_read False 1 False =
      Inr (SSTM_OK, [], half_kept)"
    by (simp add: sstm_read_def half_read_def half_kept_def Let_def)
  have c: "uint (free_size half_swept) \<noteq>
     uint (free_size half_kept) + uint (1 :: sstm_size_t)"
    by (simp add: half_swept_def half_kept_def)
  have d: "1 \<le> fresh_size half_read" "0x80000000 \<le> fresh_size wrapped_huge"
    by (simp_all add: half_read_def wrapped_huge_def)
  have e: "uint (head_idx drifted_huge) \<noteq>
     (uint (head_idx wrapped_huge) + (uint (stale_size wrapped_huge) + uint (0x80000000 :: sstm_size_t)))
       mod (uint (cap_size wrapped_huge) + 1)"
    by (simp add: drifted_huge_def wrapped_huge_def)
  from a b c d e show ?thesis
    using reachable_half_read reachable_wrapped_huge read_wrapped_huge by simp
qed

text \<open>
  C8, amended. In a reachable state of a stream whose capacity is below \<open>2 ^ 31\<close>, a read of
  \<open>sz\<close> bytes with \<open>0 < sz \<le> fresh\<close> and the cleanup flag set returns \<^verbatim>\<open>SSTM_OK\<close> and delivers
  what the same read without the flag delivers; afterwards \<open>stale\<close> and the cursor are 0, the
  head has moved on by the reclaimed amount \<open>stale + sz\<close> (the old stale size plus the bytes
  just read) modulo \<open>capacity + 1\<close>, and \<open>free\<close> is higher by that amount than after the same
  read without reclaiming.
\<close>

theorem reclaiming_read:
  assumes "reachable ctx" and "uint (cap_size ctx) < 2 ^ 31"
    and "sz \<noteq> 0" and "sz \<le> fresh_size ctx"
  shows "\<exists>out swept kept.
           sstm_read ctx data sz True = Inr (SSTM_OK, out, swept) \<and>
           sstm_read ctx data sz False = Inr (SSTM_OK, out, kept) \<and>
           stale_size swept = 0 \<and> seek_offs swept = 0 \<and>
           uint (head_idx swept) =
             (uint (head_idx ctx) + (uint (stale_size ctx) + uint sz)) mod (uint (cap_size ctx) + 1) \<and>
           uint (free_size swept) = uint (free_size kept) + (uint (stale_size ctx) + uint sz)"
proof -
  note base = small_cap_fits [OF assms(1,2)]
  from read_delivers [OF base(1,2,3) assms(3,4), of data] obtain out where
    plain: "sstm_read ctx data sz False = Inr (SSTM_OK, out, advanced ctx sz)" and
    swept: "sstm_read ctx data sz True = Inr (SSTM_OK, out, cleaned (advanced ctx sz))"
    by blast
  note fields = swept_fields [OF base(1) base(4) assms(4)]
  have "stale_size (cleaned (advanced ctx sz)) = 0" "seek_offs (cleaned (advanced ctx sz)) = 0"
    "free_size (advanced ctx sz) = free_size ctx"
    by (simp_all add: cleaned_def advanced_def)
  with plain swept fields show ?thesis by simp
qed

theorem reclaiming_read_witness:
  "reachable half_read \<and> uint (cap_size half_read) < 2 ^ 31 \<and> (1 :: sstm_size_t) \<noteq> 0 \<and>
   1 \<le> fresh_size half_read \<and>
   (\<exists>out swept kept.
      sstm_read half_read True 1 True = Inr (SSTM_OK, out, swept) \<and>
      sstm_read half_read True 1 False = Inr (SSTM_OK, out, kept) \<and>
      stale_size swept = 0 \<and> seek_offs swept = 0 \<and>
      uint (head_idx swept) = 2 \<and> uint (free_size swept) = uint (free_size kept) + 2)"
proof -
  have h2: "uint (cap_size half_read) < 2 ^ 31" by (simp add: half_read_def)
  have h3: "(1 :: sstm_size_t) \<noteq> 0" by simp
  have h4: "1 \<le> fresh_size half_read" by (simp add: half_read_def)
  have "(uint (head_idx half_read) + (uint (stale_size half_read) + uint (1 :: sstm_size_t)))
          mod (uint (cap_size half_read) + 1) = 2"
    "uint (stale_size half_read) + uint (1 :: sstm_size_t) = 2"
    by (simp_all add: half_read_def)
  with reclaiming_read [OF reachable_half_read h2 h3 h4, of True]
  have "\<exists>out swept kept.
      sstm_read half_read True 1 True = Inr (SSTM_OK, out, swept) \<and>
      sstm_read half_read True 1 False = Inr (SSTM_OK, out, kept) \<and>
      stale_size swept = 0 \<and> seek_offs swept = 0 \<and>
      uint (head_idx swept) = 2 \<and> uint (free_size swept) = uint (free_size kept) + 2"
    by simp
  then show ?thesis
    using reachable_half_read h2 h3 h4 by blast
qed

text \<open>
  C9. When both allocations succeed, \<^verbatim>\<open>sstm_new\<close> creates a stream, and a stream that it
  creates has capacity 1024 when no configuration is given, the requested capacity when that
  is at least 128, however large, and 1024 when the requested capacity is below 128.
\<close>

theorem sstm_new_capacity:
  "(\<exists>ctx. sstm_new conf (Some mem) True = Inr (SSTM_OK, Some ctx, [RingBlock, CtxBlock])) \<and>
   (\<forall>r ctx live.
      sstm_new conf ring_malloc ctx_malloc = Inr (r, Some ctx, live) \<longrightarrow>
      cap_size ctx =
        (case conf of
           None \<Rightarrow> 1024
         | Some c \<Rightarrow> if conf_cap_size c < 128 then 1024 else conf_cap_size c))"
proof
  show "\<exists>ctx. sstm_new conf (Some mem) True = Inr (SSTM_OK, Some ctx, [RingBlock, CtxBlock])"
    by (simp add: sstm_new_def Let_def)
  show "\<forall>r ctx live.
      sstm_new conf ring_malloc ctx_malloc = Inr (r, Some ctx, live) \<longrightarrow>
      cap_size ctx =
        (case conf of
           None \<Rightarrow> 1024
         | Some c \<Rightarrow> if conf_cap_size c < 128 then 1024 else conf_cap_size c)"
    by (auto simp: sstm_new_def Let_def SSTM_CAP_SIZE_DEF_def SSTM_CAP_SIZE_MIN_def
             split: option.splits if_splits)
qed

theorem sstm_new_capacity_witness:
  "sstm_new None (Some zero_mem) True = Inr (SSTM_OK, Some empty_default, [RingBlock, CtxBlock]) \<and>
   cap_size empty_default = 1024 \<and>
   sstm_new (Some huge_conf) (Some zero_mem) True = Inr (SSTM_OK, Some empty_huge, [RingBlock, CtxBlock]) \<and>
   cap_size empty_huge = 0x80000000 \<and>
   sstm_new (Some \<lparr> conf_cap_size = 127 \<rparr>) (Some zero_mem) True =
     Inr (SSTM_OK, Some empty_default, [RingBlock, CtxBlock])"
proof -
  have low: "sstm_new (Some \<lparr> conf_cap_size = 127 \<rparr>) (Some zero_mem) True =
     Inr (SSTM_OK, Some empty_default, [RingBlock, CtxBlock])"
    by (simp add: sstm_new_def empty_default_def SSTM_CAP_SIZE_DEF_def SSTM_CAP_SIZE_MIN_def)
  from sstm_new_capacity [of None zero_mem "Some zero_mem" True] sstm_new_default
  have "cap_size empty_default = 1024" by simp
  moreover
  from sstm_new_capacity [of "Some huge_conf" zero_mem "Some zero_mem" True] sstm_new_huge
  have "cap_size empty_huge = 0x80000000" by (simp add: huge_conf_def)
  ultimately show ?thesis
    using sstm_new_default sstm_new_huge low by simp
qed

text \<open>
  C10. A read of size 0 returns \<^verbatim>\<open>SSTM_OK\<close>, stores nothing and leaves the context as it
  was, whatever the cleanup flag: the return for size 0 comes before the call of
  \<^verbatim>\<open>sstm_clean\<close>, so a stale region stays.
\<close>

theorem read_zero_keeps_state:
  "sstm_read ctx data 0 cleanup = Inr (SSTM_OK, [], ctx)"
  by (simp add: sstm_read_def)

theorem read_zero_keeps_state_witness:
  "stale_size one_read \<noteq> 0 \<and> sstm_read one_read True 0 True = Inr (SSTM_OK, [], one_read)"
  using read_zero_keeps_state [of one_read True True] by (simp add: one_read_def)

end
